theory Spec2Isabelle
  imports Complex_Main "HOL-Library.Finite_Map"
begin

section \<open>Python values: dictionaries, exceptions, numpy objects\<close>

text \<open>
  The adder of \<^verbatim>\<open>mava/adders/reverb/transition.py\<close> works on per-agent dictionaries
  (agent id to value). A Python \<^verbatim>\<open>dict\<close> is modelled as an association list in insertion
  order; \<^verbatim>\<open>not d\<close> is \<open>d = []\<close> and \<^verbatim>\<open>d.keys()\<close> is \<open>keys d\<close>.
\<close>

type_synonym agent = string

type_synonym 'a pydict = "(agent \<times> 'a) list"

definition keys :: "'a pydict \<Rightarrow> agent list" where
  "keys d = map fst d"

text \<open>
  The exceptions that the modelled code can raise. \<^verbatim>\<open>UFuncTypeError\<close> is numpy's
  \<^verbatim>\<open>TypeError\<close> for a result that cannot be cast into the output array.
\<close>

datatype error =
  ValueError | IndexError | UFuncTypeError | NotImplementedError | KeyError | TypeError

subsection \<open>Floating point and integer scalars\<close>

text \<open>
  The value of a numpy scalar: a finite number, an infinity (\<open>Inf True\<close> is \<open>+inf\<close>) or
  \<open>nan\<close>. The sign of a zero is not modelled (the adder never divides).
\<close>

datatype fp = Fin real | Inf bool | NaN

datatype dtype = Float32 | Float64 | Int32 | Int64

definition is_float :: "dtype \<Rightarrow> bool" where
  "is_float T \<longleftrightarrow> T = Float32 \<or> T = Float64"

text \<open>
  The binary formats: the precision in bits and the exponent range of the normal numbers
  of \<^verbatim>\<open>float32\<close> and \<^verbatim>\<open>float64\<close>, and the width of the integer types.
\<close>

fun precision :: "dtype \<Rightarrow> int" where
  "precision Float32 = 24"
| "precision Float64 = 53"
| "precision Int32 = 32"
| "precision Int64 = 64"

fun emin :: "dtype \<Rightarrow> int" where
  "emin Float32 = - 126"
| "emin Float64 = - 1022"
| "emin Int32 = 0"
| "emin Int64 = 0"

fun emax :: "dtype \<Rightarrow> int" where
  "emax Float32 = 127"
| "emax Float64 = 1023"
| "emax Int32 = 31"
| "emax Int64 = 63"

text \<open>Rounding a real to the nearest integer, a tie to the even one.\<close>

definition round_half_even :: "real \<Rightarrow> int" where
  "round_half_even x =
     (let f = \<lfloor>x\<rfloor>; d = x - of_int f
      in if d < 1 / 2 then f else if 1 / 2 < d then f + 1 else if even f then f else f + 1)"

text \<open>
  The binary exponent of a number in a format: the \<open>e\<close> with \<open>2\<^sup>e \<le> |x| < 2\<^sup>e\<^sup>+\<^sup>1\<close>,
  kept within \<open>emin\<close> (the subnormal numbers share the exponent \<open>emin\<close>) and \<open>emax\<close>.
  The search goes upwards from \<open>emin\<close>.
\<close>

fun find_exponent :: "real \<Rightarrow> int \<Rightarrow> nat \<Rightarrow> int" where
  "find_exponent x e 0 = e"
| "find_exponent x e (Suc n) = (if 2 powi (e + 1) \<le> x then find_exponent x (e + 1) n else e)"

definition exponent :: "dtype \<Rightarrow> real \<Rightarrow> int" where
  "exponent T x = find_exponent \<bar>x\<bar> (emin T) (nat (emax T - emin T))"

text \<open>
  Rounding a real into a floating point format, to nearest and a tie to even: the number is
  rounded to a multiple of the quantum \<open>2\<^sup>e\<^sup>-\<^sup>p\<^sup>+\<^sup>1\<close> of its exponent, and a result of
  magnitude \<open>2\<^sup>e\<^sup>m\<^sup>a\<^sup>x\<^sup>+\<^sup>1\<close> or more is an infinity.
\<close>

definition round_float :: "dtype \<Rightarrow> real \<Rightarrow> fp" where
  "round_float T x =
     (let q = 2 powi (exponent T x - precision T + 1);
          y = of_int (round_half_even (x / q)) * q
      in if 2 powi (emax T + 1) \<le> \<bar>y\<bar> then Inf (0 < y) else Fin y)"

text \<open>An integer that does not fit wraps around (two's complement).\<close>

definition wrap_int :: "dtype \<Rightarrow> int \<Rightarrow> int" where
  "wrap_int T i = (i + 2 ^ nat (emax T)) mod 2 ^ nat (precision T) - 2 ^ nat (emax T)"

text \<open>
  Converting a value into a dtype. The conversions that the adder performs are between
  floating point formats, from integers to floating point and between integers; an
  infinity or a \<open>nan\<close> is never converted to an integer (such a cast is refused before it
  happens, see \<open>inplace\<close>), so that case keeps the value.
\<close>

definition cast :: "dtype \<Rightarrow> fp \<Rightarrow> fp" where
  "cast T v =
     (case v of
        Fin x \<Rightarrow> if is_float T then round_float T x else Fin (of_int (wrap_int T \<lfloor>x\<rfloor>))
      | _ \<Rightarrow> v)"

text \<open>The exact product and sum of two values, with the IEEE rules for infinities.\<close>

fun fp_times :: "fp \<Rightarrow> fp \<Rightarrow> fp" where
  "fp_times (Fin a) (Fin b) = Fin (a * b)"
| "fp_times (Inf s) (Fin b) = (if b = 0 then NaN else Inf (s = (0 < b)))"
| "fp_times (Fin a) (Inf s) = (if a = 0 then NaN else Inf (s = (0 < a)))"
| "fp_times (Inf s) (Inf s') = Inf (s = s')"
| "fp_times NaN _ = NaN"
| "fp_times _ NaN = NaN"

fun fp_plus :: "fp \<Rightarrow> fp \<Rightarrow> fp" where
  "fp_plus (Fin a) (Fin b) = Fin (a + b)"
| "fp_plus (Inf s) (Fin b) = Inf s"
| "fp_plus (Fin a) (Inf s) = Inf s"
| "fp_plus (Inf s) (Inf s') = (if s = s' then Inf s else NaN)"
| "fp_plus NaN _ = NaN"
| "fp_plus _ NaN = NaN"

text \<open>
  \<^verbatim>\<open>np.promote_types\<close> on the four dtypes: the type in which numpy computes an operation
  on two scalars (0-d arrays count as scalars).
\<close>

fun result_type :: "dtype \<Rightarrow> dtype \<Rightarrow> dtype" where
  "result_type Float64 T = Float64"
| "result_type T Float64 = Float64"
| "result_type Float32 Float32 = Float32"
| "result_type Float32 T = Float64"
| "result_type T Float32 = Float64"
| "result_type Int64 T = Int64"
| "result_type T Int64 = Int64"
| "result_type Int32 Int32 = Int32"

text \<open>
  A numpy object: the dtype tag and the (scalar) value. \<^verbatim>\<open>a * b\<close> and \<^verbatim>\<open>a + b\<close> make
  a new scalar of the promoted type: the operands are converted to it, and the exact result
  is rounded (or wrapped) into it.
\<close>

record ndarray =
  dtype :: dtype
  item :: fp

definition np_multiply :: "ndarray \<Rightarrow> ndarray \<Rightarrow> ndarray" where
  "np_multiply a b =
     (let R = result_type (dtype a) (dtype b)
      in \<lparr>dtype = R, item = cast R (fp_times (cast R (item a)) (cast R (item b)))\<rparr>)"

definition np_add :: "ndarray \<Rightarrow> ndarray \<Rightarrow> ndarray" where
  "np_add a b =
     (let R = result_type (dtype a) (dtype b)
      in \<lparr>dtype = R, item = cast R (fp_plus (cast R (item a)) (cast R (item b)))\<rparr>)"

text \<open>
  An in-place operation \<^verbatim>\<open>t op= s\<close> on an array \<open>t\<close>: numpy computes \<^verbatim>\<open>t op s\<close> in the
  promoted type and casts the result into \<open>t\<close> under the rule \<^verbatim>\<open>same_kind\<close>. A floating
  point result does not go into an integer array: \<^verbatim>\<open>UFuncTypeError\<close>, raised before
  anything is written. Otherwise the array keeps its dtype and gets the converted value.
\<close>

definition inplace :: "(ndarray \<Rightarrow> ndarray \<Rightarrow> ndarray) \<Rightarrow> ndarray \<Rightarrow> ndarray \<Rightarrow> error + ndarray" where
  "inplace op t s =
     (let r = op t s
      in if is_float (dtype r) \<and> \<not> is_float (dtype t) then Inl UFuncTypeError
         else Inr \<lparr>dtype = dtype t, item = cast (dtype t) (item r)\<rparr>)"

subsection \<open>The heap of numpy objects\<close>

text \<open>
  The accumulation of \<^verbatim>\<open>_write\<close> updates numpy arrays in place (\<^verbatim>\<open>operator.imul\<close>,
  \<^verbatim>\<open>operator.iadd\<close>), so object identity matters: every numpy object lives in a heap
  cell, and a dictionary leaf is the address of its cell. \<^verbatim>\<open>next_free\<close> is the allocation
  pointer: a new object gets the address \<open>next_free\<close>, which no existing reference can hold.
\<close>

type_synonym addr = nat

record heap =
  cells :: "addr \<Rightarrow> ndarray"
  next_free :: addr

definition alloc :: "ndarray \<Rightarrow> heap \<Rightarrow> addr \<times> heap" where
  "alloc v h =
     (next_free h, h\<lparr>cells := (cells h)(next_free h := v), next_free := Suc (next_free h)\<rparr>)"

text \<open>\<^verbatim>\<open>np.copy(x)\<close>: a new array with the dtype and the value of \<open>x\<close>.\<close>

definition np_copy :: "addr \<Rightarrow> heap \<Rightarrow> addr \<times> heap" where
  "np_copy a h = alloc (cells h a) h"

text \<open>\<^verbatim>\<open>np.dtype("float32").type(0.0)\<close>: a new float32 scalar zero.\<close>

definition float32_zero :: "heap \<Rightarrow> addr \<times> heap" where
  "float32_zero h = alloc \<lparr>dtype = Float32, item = Fin 0\<rparr> h"

text \<open>
  \<^verbatim>\<open>operator.imul(t, s)\<close> on an array \<open>t\<close>: \<^verbatim>\<open>t *= s\<close>. The cell of \<open>t\<close> keeps its
  identity and gets the new value.
\<close>

definition operator_imul :: "addr \<Rightarrow> addr \<Rightarrow> heap \<Rightarrow> error + heap" where
  "operator_imul t s h =
     (case inplace np_multiply (cells h t) (cells h s) of
        Inl e \<Rightarrow> Inl e
      | Inr v \<Rightarrow> Inr (h\<lparr>cells := (cells h)(t := v)\<rparr>))"

text \<open>
  \<^verbatim>\<open>lambda nsr, sr, td: operator.iadd(nsr, sr * td)\<close>: the product is a new scalar, then
  \<^verbatim>\<open>nsr += product\<close>.
\<close>

definition iadd_product :: "addr \<Rightarrow> addr \<Rightarrow> addr \<Rightarrow> heap \<Rightarrow> error + heap" where
  "iadd_product nsr sr td h =
     (case inplace np_add (cells h nsr) (np_multiply (cells h sr) (cells h td)) of
        Inl e \<Rightarrow> Inl e
      | Inr v \<Rightarrow> Inr (h\<lparr>cells := (cells h)(nsr := v)\<rparr>))"

subsection \<open>The tree library on dictionaries\<close>

text \<open>
  \<^verbatim>\<open>tree.assert_same_structure\<close> on two dictionaries: they must have the same key set.
\<close>

definition same_structure :: "'a pydict \<Rightarrow> 'b pydict \<Rightarrow> bool" where
  "same_structure a b \<longleftrightarrow> set (keys a) = set (keys b)"

text \<open>The leaf of a dictionary under a key (used only after the structures were compared).\<close>

definition leaf :: "'a pydict \<Rightarrow> agent \<Rightarrow> 'a" where
  "leaf d k = the (map_of d k)"

text \<open>
  \<^verbatim>\<open>tree_utils.broadcast_structures(a, b, c)\<close> when all three arguments are dictionaries:
  the first one is the reference tree, the others must have its structure, and the arguments
  are returned as they are (the same objects).
\<close>

definition broadcast_structures ::
  "'a pydict \<Rightarrow> 'b pydict \<Rightarrow> 'c pydict \<Rightarrow> error + ('a pydict \<times> 'b pydict \<times> 'c pydict)" where
  "broadcast_structures a b c =
     (if same_structure b a \<and> same_structure c a then Inr (a, b, c) else Inl ValueError)"

text \<open>
  \<^verbatim>\<open>{agent: np.dtype("float32").type(0.0) for agent in discounts.keys()}\<close>: one new
  float32 zero per agent.
\<close>

fun zero_rewards :: "agent list \<Rightarrow> heap \<Rightarrow> addr pydict \<times> heap" where
  "zero_rewards [] h = ([], h)"
| "zero_rewards (agent # agents) h =
     (let (a, h1) = float32_zero h;
          (d, h2) = zero_rewards agents h1
      in ((agent, a) # d, h2))"

text \<open>\<^verbatim>\<open>tree.map_structure(np.copy, d)\<close>: a new dictionary of new arrays.\<close>

fun map_structure_copy :: "addr pydict \<Rightarrow> heap \<Rightarrow> addr pydict \<times> heap" where
  "map_structure_copy [] h = ([], h)"
| "map_structure_copy ((k, a) # d) h =
     (let (a', h1) = np_copy a h;
          (d', h2) = map_structure_copy d h1
      in ((k, a') # d', h2))"

text \<open>
  \<^verbatim>\<open>tree.map_structure(lambda r, d: np.copy(np.broadcast_to(r, np.broadcast(r, d).shape)), rs, ds)\<close>:
  the two structures must agree; on scalars the broadcast of \<open>r\<close> is \<open>r\<close>, so each leaf is
  a new copy of the reward.
\<close>

definition map_structure_broadcast_copy ::
  "addr pydict \<Rightarrow> addr pydict \<Rightarrow> heap \<Rightarrow> error + (addr pydict \<times> heap)" where
  "map_structure_broadcast_copy rs ds h =
     (if same_structure ds rs then Inr (map_structure_copy rs h) else Inl ValueError)"

text \<open>
  \<^verbatim>\<open>tree.map_structure(operator.imul, targets, sources)\<close>: the leaves are paired by key and
  each target is multiplied in place; the result of \<^verbatim>\<open>map_structure\<close> is discarded by
  the caller, only the side effect remains. The first leaf that cannot be updated raises.
\<close>

fun imul_leaves :: "addr pydict \<Rightarrow> addr pydict \<Rightarrow> heap \<Rightarrow> error + heap" where
  "imul_leaves [] sources h = Inr h"
| "imul_leaves ((k, t) # targets) sources h =
     (case operator_imul t (leaf sources k) h of
        Inl e \<Rightarrow> Inl e
      | Inr h1 \<Rightarrow> imul_leaves targets sources h1)"

definition map_structure_imul :: "addr pydict \<Rightarrow> addr pydict \<Rightarrow> heap \<Rightarrow> error + heap" where
  "map_structure_imul targets sources h =
     (if same_structure sources targets then imul_leaves targets sources h
      else Inl ValueError)"

text \<open>
  \<^verbatim>\<open>tree.map_structure(lambda nsr, sr, td: operator.iadd(nsr, sr * td), n_step_return,
  step_reward, total_discount)\<close>.
\<close>

fun iadd_leaves :: "addr pydict \<Rightarrow> addr pydict \<Rightarrow> addr pydict \<Rightarrow> heap \<Rightarrow> error + heap" where
  "iadd_leaves [] srs tds h = Inr h"
| "iadd_leaves ((k, n) # nsrs) srs tds h =
     (case iadd_product n (leaf srs k) (leaf tds k) h of
        Inl e \<Rightarrow> Inl e
      | Inr h1 \<Rightarrow> iadd_leaves nsrs srs tds h1)"

definition map_structure_iadd ::
  "addr pydict \<Rightarrow> addr pydict \<Rightarrow> addr pydict \<Rightarrow> heap \<Rightarrow> error + heap" where
  "map_structure_iadd nsrs srs tds h =
     (if same_structure srs nsrs \<and> same_structure tds nsrs then iadd_leaves nsrs srs tds h
      else Inl ValueError)"

section \<open>Steps, transitions and the adder\<close>

text \<open>
  A \<^verbatim>\<open>Step\<close> of the buffer, with the fields that \<^verbatim>\<open>transition.py\<close> reads. The
  observations, actions and extras are opaque payloads of type \<open>'v\<close>; rewards and discounts
  are per-agent numpy objects: addresses in a buffered step (\<open>'r = addr\<close>), values in a
  step that was handed over to the replay writer or to a priority function
  (\<open>'r = ndarray\<close>).
\<close>

record ('v, 'r) Step =
  observations :: "'v pydict"
  actions :: "'v pydict"
  rewards :: "'r pydict"
  discounts :: "'r pydict"
  extras :: "'v pydict"

text \<open>
  The transition handed to \<^verbatim>\<open>self._writer.append\<close>: a 6-tuple, or a 5-tuple without
  extras (\<open>tr_extras = None\<close>) when the first step's extras are empty. The writer serialises
  what it is given, so the transition holds the values of the accumulators at that moment.
\<close>

record 'v Transition =
  tr_observations :: "'v pydict"
  tr_actions :: "'v pydict"
  tr_n_step_return :: "ndarray pydict"
  tr_total_discount :: "ndarray pydict"
  tr_next_observations :: "'v pydict"
  tr_extras :: "'v pydict option"

text \<open>
  The replay writer: the transitions appended and the items created
  (table, \<^verbatim>\<open>num_timesteps\<close>, priority).
\<close>

record 'v Writer =
  appended :: "'v Transition list"
  items :: "(string \<times> nat \<times> real) list"

definition writer_append :: "'v Transition \<Rightarrow> 'v Writer \<Rightarrow> 'v Writer" where
  "writer_append t w = w\<lparr>appended := appended w @ [t]\<rparr>"

definition writer_create_item :: "string \<Rightarrow> nat \<Rightarrow> real \<Rightarrow> 'v Writer \<Rightarrow> 'v Writer" where
  "writer_create_item table num_timesteps priority w =
     w\<lparr>items := items w @ [(table, num_timesteps, priority)]\<rparr>"

text \<open>
  The attributes of \<^verbatim>\<open>ParallelNStepTransitionAdder\<close>: \<^verbatim>\<open>self._x\<close> is the field
  \<open>adder_x\<close>. \<^verbatim>\<open>self._discount\<close> is the numpy float32 made from the configured discount;
  the buffer is the deque of the base class, oldest step first.
\<close>

record 'v Adder =
  adder_discount :: addr
  adder_discounts :: "addr pydict"
  adder_final_step_placeholder :: "('v, ndarray) Step option"
  adder_buffer :: "('v, addr) Step list"
  adder_buffer_size :: int
  adder_next_observations :: "'v pydict"
  adder_priority_fns :: "(string \<times> (('v, ndarray) Step list \<Rightarrow> real)) list"
  adder_writer :: "'v Writer"

text \<open>Reading a dictionary of numpy objects through the heap.\<close>

definition values_of :: "heap \<Rightarrow> addr pydict \<Rightarrow> ndarray pydict" where
  "values_of h d = map (\<lambda>(k, a). (k, cells h a)) d"

definition step_values :: "heap \<Rightarrow> ('v, addr) Step \<Rightarrow> ('v, ndarray) Step" where
  "step_values h s =
     \<lparr>observations = observations s, actions = actions s,
      rewards = values_of h (rewards s), discounts = values_of h (discounts s),
      extras = extras s\<rparr>"

text \<open>
  Modelled from the spec: \<^verbatim>\<open>utils.final_step_like\<close> and \<^verbatim>\<open>utils.calculate_priorities\<close>
  (\<^verbatim>\<open>mava/adders/reverb/utils.py\<close> is not among the sources). Section 4.2, step 4: the
  priorities are computed by the configured priority functions over the full step sequence,
  including a synthetic final step carrying only the arrival observations with zero-valued
  other fields.
\<close>

definition final_step_like ::
  "('v::zero, ndarray) Step \<Rightarrow> 'v pydict \<Rightarrow> ('v, ndarray) Step" where
  "final_step_like s next_obs =
     \<lparr>observations = next_obs,
      actions = map (\<lambda>(k, v). (k, 0)) (actions s),
      rewards = map (\<lambda>(k, v). (k, v\<lparr>item := Fin 0\<rparr>)) (rewards s),
      discounts = map (\<lambda>(k, v). (k, v\<lparr>item := Fin 0\<rparr>)) (discounts s),
      extras = map (\<lambda>(k, v). (k, 0)) (extras s)\<rparr>"

definition calculate_priorities ::
  "(string \<times> (('v, ndarray) Step list \<Rightarrow> real)) list \<Rightarrow> ('v, ndarray) Step list
     \<Rightarrow> (string \<times> real) list" where
  "calculate_priorities priority_fns steps = map (\<lambda>(table, f). (table, f steps)) priority_fns"

section \<open>The N-step accumulation: \<^verbatim>\<open>_write\<close>\<close>

text \<open>
  The fix for an empty rewards dictionary, which \<^verbatim>\<open>_write\<close> applies to the first step
  (lines 145 to 151) and to every later step (lines 183 to 189): if \<^verbatim>\<open>not step.rewards\<close>,
  the rewards are float32 zeros for the agents of \<^verbatim>\<open>step.discounts\<close>, else they are
  \<^verbatim>\<open>step.rewards\<close>.
\<close>

definition rewards_or_zeros :: "('v, addr) Step \<Rightarrow> heap \<Rightarrow> addr pydict \<times> heap" where
  "rewards_or_zeros step h =
     (if rewards step = [] then zero_rewards (keys (discounts step)) h
      else (rewards step, h))"

text \<open>
  The loop \<^verbatim>\<open>for step in itertools.islice(self._buffer, 1, None)\<close> of \<^verbatim>\<open>_write\<close>.
  \<open>n_step_return\<close>, \<open>total_discount\<close> and \<open>self_discount\<close> are the dictionaries built
  before the loop; the loop only changes the heap. Per step: the fix for empty rewards, the
  broadcast, then the three in-place passes in the order of the source.
\<close>

fun accumulate ::
  "('v, addr) Step list \<Rightarrow> addr pydict \<Rightarrow> addr pydict \<Rightarrow> addr pydict \<Rightarrow> heap \<Rightarrow> error + heap" where
  "accumulate [] n_step_return total_discount self_discount h = Inr h"
| "accumulate (step # steps) n_step_return total_discount self_discount h =
     (let (rewards', h1) = rewards_or_zeros step h
      in case broadcast_structures (discounts step) rewards' total_discount of
           Inl e \<Rightarrow> Inl e
         | Inr (step_discount, step_reward, total_discount') \<Rightarrow>
             (case map_structure_imul total_discount' self_discount h1 of
                Inl e \<Rightarrow> Inl e
              | Inr h2 \<Rightarrow>
                  (case map_structure_iadd n_step_return step_reward total_discount' h2 of
                     Inl e \<Rightarrow> Inl e
                   | Inr h3 \<Rightarrow>
                       (case map_structure_imul total_discount' step_discount h3 of
                          Inl e \<Rightarrow> Inl e
                        | Inr h4 \<Rightarrow>
                            accumulate steps n_step_return total_discount' self_discount h4))))"

text \<open>
  The accumulators of \<^verbatim>\<open>_write\<close> (lines 129 to 215): the dictionaries
  \<open>n_step_return\<close> and \<open>total_discount\<close>, the value assigned to \<^verbatim>\<open>self._discounts\<close>,
  and the heap after the loop.
\<close>

definition accumulators ::
  "'v Adder \<Rightarrow> ('v, addr) Step \<Rightarrow> ('v, addr) Step list \<Rightarrow> heap
     \<Rightarrow> error + (addr pydict \<times> addr pydict \<times> addr pydict \<times> heap)" where
  "accumulators A s0 steps h =
     (let discounts' = map (\<lambda>agent. (agent, adder_discount A)) (keys (observations s0));
          (rewards', h1) = rewards_or_zeros s0 h
      in case broadcast_structures rewards' (discounts s0) discounts' of
           Inl e \<Rightarrow> Inl e
         | Inr (n_step_return0, total_discount0, self_discount') \<Rightarrow>
             (let (total_discount, h2) = map_structure_copy total_discount0 h1
              in case map_structure_broadcast_copy n_step_return0 total_discount h2 of
                   Inl e \<Rightarrow> Inl e
                 | Inr (n_step_return, h3) \<Rightarrow>
                     (case accumulate steps n_step_return total_discount self_discount' h3 of
                        Inl e \<Rightarrow> Inl e
                      | Inr h4 \<Rightarrow> Inr (n_step_return, total_discount, discounts', h4))))"

text \<open>
  \<^verbatim>\<open>ParallelNStepTransitionAdder._write\<close>. \<^verbatim>\<open>self._buffer[0]\<close> raises
  \<^verbatim>\<open>IndexError\<close> on an empty buffer. The transition is appended after the priorities were
  computed, then one item per table is created.
\<close>

definition nstep_write :: "('v::zero) Adder \<Rightarrow> heap \<Rightarrow> error + ('v Adder \<times> heap)" where
  "nstep_write A h =
     (case adder_buffer A of
        [] \<Rightarrow> Inl IndexError
      | s0 # steps \<Rightarrow>
          (case accumulators A s0 steps h of
             Inl e \<Rightarrow> Inl e
           | Inr (n_step_return, total_discount, discounts', h') \<Rightarrow>
               (let next_observations = adder_next_observations A;
                    transition =
                      \<lparr>tr_observations = observations s0,
                       tr_actions = actions s0,
                       tr_n_step_return = values_of h' n_step_return,
                       tr_total_discount = values_of h' total_discount,
                       tr_next_observations = next_observations,
                       tr_extras = (if extras s0 \<noteq> [] then Some (extras s0) else None)\<rparr>;
                    placeholder =
                      (case adder_final_step_placeholder A of
                         None \<Rightarrow> final_step_like (step_values h' s0) next_observations
                       | Some p \<Rightarrow> p);
                    final_step = placeholder\<lparr>observations := next_observations\<rparr>;
                    steps' = map (step_values h') (adder_buffer A) @ [final_step];
                    table_priorities = calculate_priorities (adder_priority_fns A) steps';
                    w = fold (\<lambda>(table, priority). writer_create_item table 1 priority)
                          table_priorities (writer_append transition (adder_writer A))
                in Inr (A\<lparr>adder_discounts := discounts',
                          adder_final_step_placeholder := Some placeholder,
                          adder_writer := w\<rparr>, h'))))"

section \<open>The drain at the end of an episode: \<^verbatim>\<open>_write_last\<close>\<close>

text \<open>
  The loop \<^verbatim>\<open>while self._buffer: self._write(); self._buffer.popleft()\<close>. Each round
  shortens the buffer by one step, which is why the loop ends.
\<close>

function drain :: "('v::zero) Adder \<Rightarrow> heap \<Rightarrow> error + ('v Adder \<times> heap)" where
  "drain A h =
     (if adder_buffer A = [] then Inr (A, h)
      else case nstep_write A h of
             Inl e \<Rightarrow> Inl e
           | Inr (A', h') \<Rightarrow> drain (A'\<lparr>adder_buffer := tl (adder_buffer A')\<rparr>) h')"
  by pat_completeness auto
termination
  by (relation "measure (\<lambda>(A, h). length (adder_buffer A))")
     (auto simp: nstep_write_def Let_def neq_Nil_conv split: list.splits sum.splits prod.splits)

text \<open>
  \<^verbatim>\<open>ParallelNStepTransitionAdder._write_last\<close>: \<^verbatim>\<open>popleft\<close> on an empty deque raises
  \<^verbatim>\<open>IndexError\<close>; otherwise the oldest step is removed first, then the loop runs.
\<close>

definition nstep_write_last :: "('v::zero) Adder \<Rightarrow> heap \<Rightarrow> error + ('v Adder \<times> heap)" where
  "nstep_write_last A h =
     (case adder_buffer A of
        [] \<Rightarrow> Inl IndexError
      | s0 # steps \<Rightarrow> drain (A\<lparr>adder_buffer := steps\<rparr>) h)"

section \<open>Reading the claims: values, formulas and concrete inputs\<close>

text \<open>
  The rounds of the loop on the values of one agent. \<open>imul_val t s\<close> is the array \<open>t\<close> after
  \<^verbatim>\<open>t *= s\<close> and \<open>iadd_val n r t\<close> is the array \<open>n\<close> after \<^verbatim>\<open>n += r * t\<close>. The pair of
  \<open>fold_return\<close> is (\<open>n_step_return\<close>, \<open>total_discount\<close>); a round with the reward \<open>r\<close> and
  the environment discount \<open>d\<close> does \<^verbatim>\<open>total_discount *= g\<close>,
  \<^verbatim>\<open>n_step_return += r * total_discount\<close>, \<^verbatim>\<open>total_discount *= d\<close>, each operation
  rounded as numpy rounds it.
\<close>

definition imul_val :: "ndarray \<Rightarrow> ndarray \<Rightarrow> error + ndarray" where
  "imul_val t s = inplace np_multiply t s"

definition iadd_val :: "ndarray \<Rightarrow> ndarray \<Rightarrow> ndarray \<Rightarrow> error + ndarray" where
  "iadd_val n r t = inplace np_add n (np_multiply r t)"

fun fold_return ::
  "ndarray \<Rightarrow> (ndarray \<times> ndarray) list \<Rightarrow> ndarray \<times> ndarray \<Rightarrow> error + (ndarray \<times> ndarray)" where
  "fold_return g [] acc = Inr acc"
| "fold_return g ((r, d) # xs) (n, t) =
     (case imul_val t g of
        Inl e \<Rightarrow> Inl e
      | Inr t1 \<Rightarrow>
          (case iadd_val n r t1 of
             Inl e \<Rightarrow> Inl e
           | Inr n1 \<Rightarrow>
               (case imul_val t1 d of
                  Inl e \<Rightarrow> Inl e
                | Inr t2 \<Rightarrow> fold_return g xs (n1, t2))))"

text \<open>
  The reward and the environment discount of a buffered step for one agent, read through the
  heap. An empty rewards dictionary counts as the float32 zero.
\<close>

definition reward_cell :: "heap \<Rightarrow> ('v, addr) Step \<Rightarrow> agent \<Rightarrow> ndarray" where
  "reward_cell h s k =
     (if rewards s = [] then \<lparr>dtype = Float32, item = Fin 0\<rparr> else cells h (leaf (rewards s) k))"

definition discount_cell :: "heap \<Rightarrow> ('v, addr) Step \<Rightarrow> agent \<Rightarrow> ndarray" where
  "discount_cell h s k = cells h (leaf (discounts s) k)"




definition representable :: "dtype \<Rightarrow> real \<Rightarrow> bool" where
  "representable T x \<longleftrightarrow> round_float T x = Fin x"


text \<open>
  What Python guarantees about the objects that the adder holds: every reference is to an
  existing object (an address below \<open>next_free\<close>), and a dictionary has each key once.
\<close>

definition refs_below :: "addr \<Rightarrow> addr pydict \<Rightarrow> bool" where
  "refs_below n d = list_all (\<lambda>(k, a). a < n) d"

definition well_formed :: "'v Adder \<Rightarrow> heap \<Rightarrow> bool" where
  "well_formed A h \<longleftrightarrow>
     adder_discount A < next_free h \<and>
     list_all (\<lambda>s. refs_below (next_free h) (rewards s) \<and> refs_below (next_free h) (discounts s)
                   \<and> distinct (keys (rewards s)) \<and> distinct (keys (discounts s)))
       (adder_buffer A)"

text \<open>
  The accumulation of \<^verbatim>\<open>_write\<close> for the agent \<open>k\<close>, on the values: the rounds of the loop
  over the later steps of the buffer, from the reward and the environment discount of the
  first step, with the accumulator discount \<^verbatim>\<open>self._discount\<close>.
\<close>

definition rounded_return :: "heap \<Rightarrow> 'v Adder \<Rightarrow> agent \<Rightarrow> error + (ndarray \<times> ndarray)" where
  "rounded_return h A k =
     fold_return (cells h (adder_discount A))
       (map (\<lambda>s. (reward_cell h s k, discount_cell h s k)) (tl (adder_buffer A)))
       (reward_cell h (hd (adder_buffer A)) k, discount_cell h (hd (adder_buffer A)) k)"






text \<open>
  The steps of the buffer agree on the agents: the discounts of every step are keyed by
  the agents of the first step's observations, and so are its rewards unless they are empty.
\<close>

definition same_agents :: "'v Adder \<Rightarrow> bool" where
  "same_agents A \<longleftrightarrow>
     (case adder_buffer A of
        [] \<Rightarrow> False
      | s0 # steps \<Rightarrow>
          list_all (\<lambda>s. set (keys (discounts s)) = set (keys (observations s0))
                        \<and> (rewards s = [] \<or> set (keys (rewards s)) = set (keys (observations s0))))
            (s0 # steps))"

text \<open>
  The accumulators are floating point: when the buffer holds more than one step, the
  rewards and the discounts of the first step, which seed the accumulators, are float32 or
  float64 arrays.
\<close>

definition float_refs :: "heap \<Rightarrow> addr pydict \<Rightarrow> bool" where
  "float_refs h d = list_all (\<lambda>(k, a). is_float (dtype (cells h a))) d"

definition float_seeds :: "'v Adder \<Rightarrow> heap \<Rightarrow> bool" where
  "float_seeds A h \<longleftrightarrow>
     (case adder_buffer A of
        s0 # s1 # steps \<Rightarrow> float_refs h (rewards s0) \<and> float_refs h (discounts s0)
      | _ \<Rightarrow> True)"

text \<open>
  What a transition carries as extras: the sixth component, or nothing when the transition
  is the 5-tuple.
\<close>

definition extras_carried :: "'v Transition \<Rightarrow> 'v pydict" where
  "extras_carried t = (case tr_extras t of None \<Rightarrow> [] | Some e \<Rightarrow> e)"

text \<open>
  A concrete heap and adder: one agent \<open>a0\<close>; at address 0 the accumulator discount
  \<^verbatim>\<open>np.float32(0.9)\<close>, which is 7549747 / 8388608; the float32 rewards 1, 2, 3 at the
  addresses 1 to 3 and the float32 environment discounts 1, 1, 0 at the addresses 4 to 6.
  The three buffered steps carry the extras 5, 9 and 7 under \<open>h\<close>.
\<close>

definition example_heap :: heap where
  "example_heap =
     \<lparr>cells = (\<lambda>a. \<lparr>dtype = Float32,
                      item = Fin (if a < 7 then [7549747 / 8388608, 1, 2, 3, 1, 1, 0] ! a else 0)\<rparr>),
      next_free = 7\<rparr>"

definition example_step :: "addr \<Rightarrow> addr \<Rightarrow> int \<Rightarrow> (int, addr) Step" where
  "example_step r d e =
     \<lparr>observations = [(''a0'', int r)], actions = [(''a0'', 0)], rewards = [(''a0'', r)],
      discounts = [(''a0'', d)], extras = [(''h'', e)]\<rparr>"

definition example_adder :: "int Adder" where
  "example_adder =
     \<lparr>adder_discount = 0, adder_discounts = [], adder_final_step_placeholder = None,
      adder_buffer = [example_step 1 4 5, example_step 2 5 9, example_step 3 6 7],
      adder_buffer_size = 3, adder_next_observations = [(''a0'', 42)],
      adder_priority_fns = [(''priority_table'', \<lambda>steps. 1)],
      adder_writer = \<lparr>appended = [], items = []\<rparr>\<rparr>"

text \<open>The same adder with a single buffered step: reward 1, environment discount 1.\<close>

definition one_step_adder :: "int Adder" where
  "one_step_adder = example_adder\<lparr>adder_buffer := [example_step 1 4 5]\<rparr>"


text \<open>
  A heap whose environment discounts (addresses 4 to 6) are float64, and an adder whose first
  step has an empty rewards dictionary and a discount for the agent \<open>a0\<close>.
\<close>

definition example_heap64 :: heap where
  "example_heap64 =
     \<lparr>cells = (\<lambda>a. \<lparr>dtype = (if a \<in> {4, 5, 6} then Float64 else Float32),
                      item = Fin (if a < 7 then [7549747 / 8388608, 1, 2, 3, 1, 1, 0] ! a else 0)\<rparr>),
      next_free = 7\<rparr>"

definition empty_rewards_adder :: "int Adder" where
  "empty_rewards_adder =
     example_adder\<lparr>adder_buffer := [(example_step 1 4 5)\<lparr>rewards := []\<rparr>, example_step 2 5 9]\<rparr>"

text \<open>
  A heap whose environment discounts are int32: the total discount of the first step is an
  integer array.
\<close>

definition example_heap_int :: heap where
  "example_heap_int =
     \<lparr>cells = (\<lambda>a. \<lparr>dtype = (if a \<in> {4, 5, 6} then Int32 else Float32),
                      item = Fin (if a < 7 then [7549747 / 8388608, 1, 2, 3, 1, 1, 0] ! a else 0)\<rparr>),
      next_free = 7\<rparr>"

section \<open>Reading the drain and the constructor\<close>

text \<open>
  The windows of a drain, in the words of the specification: the buffer is taken from the
  front, so the windows are the non-empty suffixes of the buffered steps, the longest first.
\<close>

fun windows :: "'a list \<Rightarrow> 'a list list" where
  "windows [] = []"
| "windows (s # steps) = (s # steps) # windows steps"

text \<open>
  \<open>t\<close> is the transition of the window \<open>w\<close>: its source is the first step of the window
  (observations, actions and extras), the steps of the window agree on the agents, and for
  every agent the return and the discount are accumulated over the steps of the window.
\<close>

definition window_transition ::
  "heap \<Rightarrow> 'v Adder \<Rightarrow> ('v, addr) Step list \<Rightarrow> 'v Transition \<Rightarrow> bool" where
  "window_transition h A w t \<longleftrightarrow>
     tr_observations t = observations (hd w) \<and> tr_actions t = actions (hd w)
     \<and> extras_carried t = extras (hd w)
     \<and> tr_next_observations t = adder_next_observations A
     \<and> same_agents (A\<lparr>adder_buffer := w\<rparr>)
     \<and> (\<forall>k\<in>set (keys (discounts (hd w))).
           rounded_return h (A\<lparr>adder_buffer := w\<rparr>) k
             = Inr (leaf (tr_n_step_return t) k, leaf (tr_total_discount t) k))"

text \<open>
  The attributes that the base class \<^verbatim>\<open>base.ReverbParallelAdder\<close> sets up and that
  \<^verbatim>\<open>transition.py\<close> uses.
\<close>

record 'v ReverbParallelAdder =
  base_buffer :: "('v, addr) Step list"
  base_buffer_size :: int
  base_max_sequence_length :: int
  base_next_observations :: "'v pydict"
  base_priority_fns :: "(string \<times> (('v, ndarray) Step list \<Rightarrow> real)) list"
  base_writer :: "'v Writer"

text \<open>
  Modelled from the spec: \<^verbatim>\<open>base.ReverbParallelAdder.__init__\<close>
  (\<^verbatim>\<open>mava/adders/reverb/base.py\<close> is not among the sources). Section 4.1: the Step Buffer
  holds the last \<open>buffer_size\<close> steps in temporal order; its contract has \<^verbatim>\<open>append\<close>,
  \<^verbatim>\<open>pop_front\<close> and \<^verbatim>\<open>is_empty\<close>, and names no failure of its construction. The buffer
  starts empty and nothing is written yet.
\<close>

definition ReverbParallelAdder_init ::
  "int \<Rightarrow> int \<Rightarrow> (string \<times> (('v, ndarray) Step list \<Rightarrow> real)) list
     \<Rightarrow> error + 'v ReverbParallelAdder" where
  "ReverbParallelAdder_init buffer_size max_sequence_length priority_fns =
     Inr \<lparr>base_buffer = [], base_buffer_size = buffer_size,
          base_max_sequence_length = max_sequence_length, base_next_observations = [],
          base_priority_fns = priority_fns, base_writer = \<lparr>appended = [], items = []\<rparr>\<rparr>"

text \<open>
  \<^verbatim>\<open>ParallelNStepTransitionAdder.__init__\<close> (lines 82 to 115), with the constructor of the
  base class as a parameter: \<^verbatim>\<open>self._discount = np.float32(discount)\<close> (the Python float
  \<open>discount\<close> rounded to float32), \<^verbatim>\<open>self._final_step_placeholder = None\<close>, then
  \<^verbatim>\<open>super().__init__(client, buffer_size=n_step, max_sequence_length=1, priority_fns)\<close>.
  There is no other statement: \<open>n_step\<close> is not looked at. \<^verbatim>\<open>self._discounts\<close> is set by
  the first \<^verbatim>\<open>_write\<close>; the field holds the empty dictionary until then.
\<close>

definition nstep_init ::
  "(int \<Rightarrow> int \<Rightarrow> (string \<times> (('v, ndarray) Step list \<Rightarrow> real)) list
      \<Rightarrow> error + 'v ReverbParallelAdder)
     \<Rightarrow> int \<Rightarrow> real \<Rightarrow> (string \<times> (('v, ndarray) Step list \<Rightarrow> real)) list \<Rightarrow> heap
     \<Rightarrow> error + ('v Adder \<times> heap)" where
  "nstep_init super_init n_step discount priority_fns h =
     (let (a, h1) = alloc \<lparr>dtype = Float32, item = round_float Float32 discount\<rparr> h
      in case super_init n_step 1 priority_fns of
           Inl e \<Rightarrow> Inl e
         | Inr b \<Rightarrow>
             Inr (\<lparr>adder_discount = a, adder_discounts = [],
                   adder_final_step_placeholder = None,
                   adder_buffer = base_buffer b, adder_buffer_size = base_buffer_size b,
                   adder_next_observations = base_next_observations b,
                   adder_priority_fns = base_priority_fns b,
                   adder_writer = base_writer b\<rparr>, h1))"

section \<open>The parameter store and the parameter client\<close>

text \<open>
  A parameter value as the tests build them: a numpy array, a Python integer or string (the
  leaves of a network's layers), a nested dictionary, or any other object (a function in
  \<^verbatim>\<open>test__copy_not_implemented_error\<close>). A dictionary of parameters is a finite map from
  names to values; the identity of the objects is not modelled.
\<close>

datatype pvalue =
  Arr ndarray | PyInt int | PyStr string | Group "(string, pvalue) fmap" | Opaque

type_synonym params = "(string, pvalue) fmap"

subsection \<open>The mock parameter server of the tests\<close>

text \<open>
  \<^verbatim>\<open>MockParameterServer\<close> of \<^verbatim>\<open>parameter_client_test.py\<close> (lines 29 to 61): the
  attributes of its store that \<^verbatim>\<open>get_parameters\<close> reads and writes, and its
  \<^verbatim>\<open>set_parameter_keys\<close>.
\<close>

record ParameterServer =
  store_parameters :: params
  store_param_names :: "string list"
  store_get_parameters :: "(string \<times> pvalue) list"
  set_parameter_keys :: "string list"

text \<open>\<^verbatim>\<open>name.split(sep)[0]\<close>: the part of the name before the first separator.\<close>

definition split_head :: "char \<Rightarrow> string \<Rightarrow> string" where
  "split_head sep name = takeWhile (\<lambda>c. c \<noteq> sep) name"

text \<open>
  \<^verbatim>\<open>x += 1\<close> on a parameter value: on an array the Python integer takes the dtype of the
  array; on a Python integer it is exact; anything else has no such operation.
\<close>

definition iadd_one :: "pvalue \<Rightarrow> error + pvalue" where
  "iadd_one v =
     (case v of
        Arr a \<Rightarrow>
          (case inplace np_add a \<lparr>dtype = dtype a, item = Fin 1\<rparr> of
             Inl e \<Rightarrow> Inl e
           | Inr a' \<Rightarrow> Inr (Arr a'))
      | PyInt i \<Rightarrow> Inr (PyInt (i + 1))
      | _ \<Rightarrow> Inl TypeError)"

text \<open>\<^verbatim>\<open>parameters[name][k1][k2] += 1\<close> on a dictionary of dictionaries of dictionaries.\<close>

definition iadd_nested :: "string \<Rightarrow> string \<Rightarrow> string \<Rightarrow> params \<Rightarrow> error + params" where
  "iadd_nested name k1 k2 ps =
     (case fmlookup ps name of
        None \<Rightarrow> Inl KeyError
      | Some (Group g) \<Rightarrow>
          (case fmlookup g k1 of
             None \<Rightarrow> Inl KeyError
           | Some (Group l) \<Rightarrow>
               (case fmlookup l k2 of
                  None \<Rightarrow> Inl KeyError
                | Some v \<Rightarrow>
                    (case iadd_one v of
                       Inl e \<Rightarrow> Inl e
                     | Inr v' \<Rightarrow> Inr (fmupd name (Group (fmupd k1 (Group (fmupd k2 v' l)) g)) ps)))
           | Some _ \<Rightarrow> Inl TypeError)
      | Some _ \<Rightarrow> Inl TypeError)"

text \<open>
  The body of the loop of \<^verbatim>\<open>_increment_parameters\<close> (lines 43 to 48) for one name, and
  the loop over the names.
\<close>

definition increment_parameter :: "string \<Rightarrow> params \<Rightarrow> error + params" where
  "increment_parameter name ps =
     (if split_head CHR ''_'' name = ''key'' then
        (case fmlookup ps name of
           None \<Rightarrow> Inl KeyError
         | Some v \<Rightarrow> (case iadd_one v of Inl e \<Rightarrow> Inl e | Inr v' \<Rightarrow> Inr (fmupd name v' ps)))
      else if split_head CHR ''-'' name = ''networks'' then
        (case iadd_nested name ''layer_0'' ''weights'' ps of
           Inl e \<Rightarrow> Inl e
         | Inr ps' \<Rightarrow> iadd_nested name ''layer_0'' ''biases'' ps')
      else Inr ps)"

fun increment_parameters :: "string list \<Rightarrow> params \<Rightarrow> error + params" where
  "increment_parameters [] ps = Inr ps"
| "increment_parameters (name # names) ps =
     (case increment_parameter name ps of
        Inl e \<Rightarrow> Inl e
      | Inr ps' \<Rightarrow> increment_parameters names ps')"

text \<open>
  \<^verbatim>\<open>{name: self.store.parameters[name] for name in names}\<close>: a missing name raises
  \<^verbatim>\<open>KeyError\<close>.
\<close>

fun lookup_names :: "string list \<Rightarrow> params \<Rightarrow> error + (string \<times> pvalue) list" where
  "lookup_names [] ps = Inr []"
| "lookup_names (name # names) ps =
     (case fmlookup ps name of
        None \<Rightarrow> Inl KeyError
      | Some v \<Rightarrow>
          (case lookup_names names ps of
             Inl e \<Rightarrow> Inl e
           | Inr d \<Rightarrow> Inr ((name, v) # d)))"

text \<open>
  \<^verbatim>\<open>MockParameterServer.get_parameters\<close> (lines 50 to 61): the requested names are
  recorded, every requested parameter that is not a set parameter is incremented (the names
  \<^verbatim>\<open>set(names) - set(self.set_parameter_keys)\<close>, each once), and the requested parameters
  are returned as they are in the store now.
\<close>

definition get_parameters ::
  "string list \<Rightarrow> ParameterServer \<Rightarrow> error + ((string \<times> pvalue) list \<times> ParameterServer)" where
  "get_parameters names s =
     (let get_names = filter (\<lambda>name. name \<notin> set (set_parameter_keys s)) (remdups names)
      in case increment_parameters get_names (store_parameters s) of
           Inl e \<Rightarrow> Inl e
         | Inr ps \<Rightarrow>
             (case lookup_names names ps of
                Inl e \<Rightarrow> Inl e
              | Inr get_params \<Rightarrow>
                  Inr (get_params,
                       s\<lparr>store_param_names := names, store_parameters := ps,
                         store_get_parameters := get_params\<rparr>)))"

subsection \<open>The parameter client\<close>

text \<open>
  Modelled from the spec: the state of the \<^verbatim>\<open>ParameterClient\<close>
  (\<^verbatim>\<open>mava/systems/jax/parameter_client.py\<close> is not among the sources). Section 4.4: the
  local cache \<open>parameters\<close>, the keys eligible for a pull and for a push, the
  \<open>update_period\<close> and an internal call counter. \<open>round_trips\<close> is not an attribute of the
  client: it counts the synchronizations that the client has triggered, for the statement of
  the periodic gate.
\<close>

record ParameterClient =
  client_parameters :: params
  get_keys :: "string list"
  set_keys :: "string list"
  update_period :: nat
  call_counter :: nat
  round_trips :: nat

text \<open>
  Modelled from the spec: \<^verbatim>\<open>ParameterClient._copy\<close>, for one new parameter. Section 4.4:
  for a nested-mapping-valued parameter it merges by reference replacement per leaf key (the
  entries of the new mapping replace the cached ones, the other cached entries stay); for a
  scalar or array-valued parameter it overwrites by numeric assignment; it fails with
  \<^verbatim>\<open>NotImplementedError\<close> if the new parameter is neither a nested mapping nor a numeric
  array. The update is into the cached container: when the cache has no container of that
  kind under the name, Python's \<^verbatim>\<open>KeyError\<close> or \<^verbatim>\<open>TypeError\<close> stands for what the
  specification leaves open.
\<close>

definition copy_parameter :: "string \<Rightarrow> pvalue \<Rightarrow> params \<Rightarrow> error + params" where
  "copy_parameter key new cache =
     (case new of
        Group g \<Rightarrow>
          (case fmlookup cache key of
             None \<Rightarrow> Inl KeyError
           | Some (Group old) \<Rightarrow> Inr (fmupd key (Group (old ++\<^sub>f g)) cache)
           | Some _ \<Rightarrow> Inl TypeError)
      | Arr a \<Rightarrow>
          (case fmlookup cache key of
             None \<Rightarrow> Inl KeyError
           | Some (Arr old) \<Rightarrow> Inr (fmupd key (Arr a) cache)
           | Some _ \<Rightarrow> Inl TypeError)
      | _ \<Rightarrow> Inl NotImplementedError)"

text \<open>
  Modelled from the spec: \<^verbatim>\<open>ParameterClient._copy(new_parameters)\<close>, the new parameters
  one after the other, in the order of the dictionary.
\<close>

fun copy_entries :: "(string \<times> pvalue) list \<Rightarrow> params \<Rightarrow> error + params" where
  "copy_entries [] cache = Inr cache"
| "copy_entries ((key, new) # rest) cache =
     (case copy_parameter key new cache of
        Inl e \<Rightarrow> Inl e
      | Inr cache' \<Rightarrow> copy_entries rest cache')"

definition client_copy ::
  "(string \<times> pvalue) list \<Rightarrow> ParameterClient \<Rightarrow> error + ParameterClient" where
  "client_copy new_parameters c =
     (case copy_entries new_parameters (client_parameters c) of
        Inl e \<Rightarrow> Inl e
      | Inr ps \<Rightarrow> Inr (c\<lparr>client_parameters := ps\<rparr>))"

text \<open>
  Modelled from the spec: \<^verbatim>\<open>ParameterClient.get_and_wait\<close>. Section 4.4: synchronously
  fetches \<open>get_keys\<close> from the store and overwrites the local cache entries for those keys.
\<close>

definition get_and_wait ::
  "ParameterClient \<Rightarrow> ParameterServer \<Rightarrow> error + (ParameterClient \<times> ParameterServer)" where
  "get_and_wait c s =
     (case get_parameters (get_keys c) s of
        Inl e \<Rightarrow> Inl e
      | Inr (new_parameters, s') \<Rightarrow>
          (case client_copy new_parameters c of
             Inl e \<Rightarrow> Inl e
           | Inr c' \<Rightarrow> Inr (c', s')))"

text \<open>
  Modelled from the spec: \<^verbatim>\<open>ParameterClient._adjust_and_request\<close>. Section 4.4: on each
  invocation it increments the call counter; when the counter reaches \<open>update_period\<close>, it
  resets the counter to zero and triggers a synchronization (here the blocking fetch of
  \<open>get_keys\<close>); otherwise it does nothing else.
\<close>

definition adjust_and_request ::
  "ParameterClient \<Rightarrow> ParameterServer \<Rightarrow> error + (ParameterClient \<times> ParameterServer)" where
  "adjust_and_request c s =
     (let n = call_counter c + 1
      in if update_period c \<le> n
         then get_and_wait (c\<lparr>call_counter := 0, round_trips := round_trips c + 1\<rparr>) s
         else Inr (c\<lparr>call_counter := n\<rparr>, s))"

text \<open>\<open>n\<close> invocations of the hook, one after the other.\<close>

fun adjust_times ::
  "nat \<Rightarrow> ParameterClient \<Rightarrow> ParameterServer \<Rightarrow> error + (ParameterClient \<times> ParameterServer)" where
  "adjust_times 0 c s = Inr (c, s)"
| "adjust_times (Suc n) c s =
     (case adjust_and_request c s of
        Inl e \<Rightarrow> Inl e
      | Inr (c', s') \<Rightarrow> adjust_times n c' s')"

subsection \<open>Reading the claims about the client\<close>

text \<open>
  The values that \<^verbatim>\<open>_copy\<close> supports, and the caches into which a dictionary of new
  parameters can be merged: every supported new parameter has a cached container of its kind.
\<close>

definition supported :: "pvalue \<Rightarrow> bool" where
  "supported v = (case v of Group g \<Rightarrow> True | Arr a \<Rightarrow> True | _ \<Rightarrow> False)"

definition same_kind :: "pvalue \<Rightarrow> pvalue option \<Rightarrow> bool" where
  "same_kind new cached =
     (case new of
        Group g \<Rightarrow> (case cached of Some (Group old) \<Rightarrow> True | _ \<Rightarrow> False)
      | Arr a \<Rightarrow> (case cached of Some (Arr old) \<Rightarrow> True | _ \<Rightarrow> False)
      | _ \<Rightarrow> True)"

definition mergeable :: "params \<Rightarrow> (string \<times> pvalue) list \<Rightarrow> bool" where
  "mergeable cache new_parameters =
     list_all (\<lambda>(key, new). same_kind new (fmlookup cache key)) new_parameters"

text \<open>
  The new parameter is in the cache: a new array is the cached value, the entries of a new
  mapping are entries of the cached mapping.
\<close>

definition merged :: "pvalue \<Rightarrow> pvalue option \<Rightarrow> bool" where
  "merged new cached =
     (case new of
        Group g \<Rightarrow> (case cached of Some (Group m) \<Rightarrow> g \<subseteq>\<^sub>f m | _ \<Rightarrow> False)
      | _ \<Rightarrow> cached = Some new)"

text \<open>
  The cached mappings have no entry that the store does not have: for a key of \<open>keys\<close>
  under which both hold a mapping, the names of the cached entries are names of the stored
  ones.
\<close>

definition same_shape :: "string list \<Rightarrow> params \<Rightarrow> params \<Rightarrow> bool" where
  "same_shape keys' cache store =
     list_all (\<lambda>key. case (fmlookup cache key, fmlookup store key) of
                        (Some (Group old), Some (Group g)) \<Rightarrow> fmdom old |\<subseteq>| fmdom g
                      | _ \<Rightarrow> True) keys'"

subsection \<open>The fixtures of the tests\<close>

text \<open>
  The store of \<^verbatim>\<open>mock_parameter_server\<close> (lines 72 to 92) and the client of
  \<^verbatim>\<open>parameter_client\<close> (lines 95 to 135, with \<open>update_period = 10\<close>), which start from the
  same parameters.
\<close>

definition int32 :: "int \<Rightarrow> pvalue" where
  "int32 i = Arr \<lparr>dtype = Int32, item = Fin (of_int i)\<rparr>"

definition float32 :: "real \<Rightarrow> pvalue" where
  "float32 x = Arr \<lparr>dtype = Float32, item = Fin x\<rparr>"

definition network :: "int \<Rightarrow> pvalue" where
  "network i =
     Group (fmupd ''layer_0''
              (Group (fmupd ''weights'' (PyInt i) (fmupd ''biases'' (PyInt i) fmempty)))
              fmempty)"

definition fixture_parameters :: params where
  "fixture_parameters =
     fmupd ''key_0'' (int32 0) (fmupd ''key_1'' (float32 1) (fmupd ''key_2'' (int32 2)
       (fmupd ''key_3'' (int32 3) (fmupd ''key_4'' (int32 4)
         (fmupd ''networks-network_key_0'' (network 0)
           (fmupd ''networks-network_key_1'' (network 1)
             (fmupd ''networks-network_key_2'' (network 2) fmempty)))))))"

definition mock_parameter_server :: ParameterServer where
  "mock_parameter_server =
     \<lparr>store_parameters = fixture_parameters, store_param_names = [],
      store_get_parameters = [], set_parameter_keys = [''key_0'', ''key_2'']\<rparr>"

definition parameter_client :: ParameterClient where
  "parameter_client =
     \<lparr>client_parameters = fixture_parameters,
      get_keys = [''key_0'', ''key_1'', ''key_2'', ''key_3'', ''key_4'',
                  ''networks-network_key_0'', ''networks-network_key_1'',
                  ''networks-network_key_2''],
      set_keys = [''key_0'', ''key_2''],
      update_period = 10, call_counter = 0, round_trips = 0\<rparr>"

text \<open>
  The same client pulling only \<^verbatim>\<open>key_1\<close> and \<^verbatim>\<open>key_3\<close>, and the new parameters of
  \<^verbatim>\<open>test__copy\<close> (lines 186 to 194) and of \<^verbatim>\<open>test__copy_not_implemented_error\<close> (line 209).
\<close>

definition partition_client :: ParameterClient where
  "partition_client = parameter_client\<lparr>get_keys := [''key_1'', ''key_3'']\<rparr>"

definition test_copy_parameters :: "(string \<times> pvalue) list" where
  "test_copy_parameters =
     [(''networks-network_key_0'',
       Group (fmupd ''layer_0''
                (Group (fmupd ''weights'' (PyStr ''new_weights'')
                          (fmupd ''biases'' (PyStr ''new_biases'') fmempty)))
                fmempty)),
      (''key_2'', int32 20), (''key_4'', int32 40)]"

definition wrong_type_parameters :: "(string \<times> pvalue) list" where
  "wrong_type_parameters = [(''wrong_type_parameter'', Opaque)]"

section \<open>Properties of \<^verbatim>\<open>_write\<close>\<close>

lemmas model_defs = Let_def nstep_write_def accumulators_def keys_def rewards_or_zeros_def
  broadcast_structures_def same_structure_def map_structure_broadcast_copy_def np_copy_def
  alloc_def float32_zero_def map_structure_imul_def map_structure_iadd_def leaf_def values_of_def
  writer_append_def writer_create_item_def calculate_priorities_def final_step_like_def
  step_values_def

lemmas example_defs = example_adder_def example_heap_def example_step_def

lemma appended_create_items:
  "appended (fold (\<lambda>(table, priority). writer_create_item table n priority) ps w) = appended w"
  by (induction ps arbitrary: w) (auto simp: writer_create_item_def)

text \<open>What a successful \<^verbatim>\<open>_write\<close> did: the buffer is as before, one transition is appended.\<close>

lemma nstep_write_Inr:
  assumes "nstep_write A h = Inr (A', h')"
  obtains s0 steps nsr td ds where
    "adder_buffer A = s0 # steps"
    "accumulators A s0 steps h = Inr (nsr, td, ds, h')"
    "adder_buffer A' = adder_buffer A"
    "appended (adder_writer A') = appended (adder_writer A) @
       [\<lparr>tr_observations = observations s0, tr_actions = actions s0,
         tr_n_step_return = values_of h' nsr, tr_total_discount = values_of h' td,
         tr_next_observations = adder_next_observations A,
         tr_extras = (if extras s0 \<noteq> [] then Some (extras s0) else None)\<rparr>]"
proof (cases "adder_buffer A")
  case Nil
  with assms show ?thesis by (simp add: nstep_write_def)
next
  case (Cons s0 steps)
  with assms obtain nsr td ds where acc: "accumulators A s0 steps h = Inr (nsr, td, ds, h')"
    by (auto simp: nstep_write_def Let_def split: sum.splits prod.splits)
  with assms Cons show ?thesis
    by (intro that [of s0 steps nsr td ds])
       (auto simp: nstep_write_def Let_def appended_create_items writer_append_def)
qed

subsection \<open>Allocation and in-place updates\<close>

lemma inplace_dtype: "inplace op t s = Inr v \<Longrightarrow> dtype v = dtype t"
  by (auto simp: inplace_def Let_def split: if_splits)

lemma operator_imul_Inr:
  assumes "operator_imul t s h = Inr h'"
  shows "next_free h' = next_free h"
    and "imul_val (cells h t) (cells h s) = Inr (cells h' t)"
    and "\<And>a. a \<noteq> t \<Longrightarrow> cells h' a = cells h a"
    and "\<And>a. dtype (cells h' a) = dtype (cells h a)"
proof -
  from assms obtain v where v: "inplace np_multiply (cells h t) (cells h s) = Inr v"
    and h': "h' = h\<lparr>cells := (cells h)(t := v)\<rparr>"
    by (auto simp: operator_imul_def split: sum.splits)
  from h' show "next_free h' = next_free h" by simp
  from v h' show "imul_val (cells h t) (cells h s) = Inr (cells h' t)"
    by (simp add: imul_val_def)
  from h' show "\<And>a. a \<noteq> t \<Longrightarrow> cells h' a = cells h a" by simp
  from h' inplace_dtype [OF v] show "\<And>a. dtype (cells h' a) = dtype (cells h a)" by simp
qed

lemma iadd_product_Inr:
  assumes "iadd_product n r t h = Inr h'"
  shows "next_free h' = next_free h"
    and "iadd_val (cells h n) (cells h r) (cells h t) = Inr (cells h' n)"
    and "\<And>a. a \<noteq> n \<Longrightarrow> cells h' a = cells h a"
    and "\<And>a. dtype (cells h' a) = dtype (cells h a)"
proof -
  from assms obtain v where
    v: "inplace np_add (cells h n) (np_multiply (cells h r) (cells h t)) = Inr v"
    and h': "h' = h\<lparr>cells := (cells h)(n := v)\<rparr>"
    by (auto simp: iadd_product_def split: sum.splits)
  from h' show "next_free h' = next_free h" by simp
  from v h' show "iadd_val (cells h n) (cells h r) (cells h t) = Inr (cells h' n)"
    by (simp add: iadd_val_def)
  from h' show "\<And>a. a \<noteq> n \<Longrightarrow> cells h' a = cells h a" by simp
  from h' inplace_dtype [OF v] show "\<And>a. dtype (cells h' a) = dtype (cells h a)" by simp
qed

lemma zero_rewards_props:
  "zero_rewards ks h = (d, h') \<Longrightarrow>
     keys d = ks \<and> next_free h' = next_free h + length ks
     \<and> distinct (map snd d)
     \<and> (\<forall>a\<in>snd ` set d. next_free h \<le> a \<and> a < next_free h')
     \<and> (\<forall>a<next_free h. cells h' a = cells h a)
     \<and> (\<forall>a\<in>snd ` set d. cells h' a = \<lparr>dtype = Float32, item = Fin 0\<rparr>)"
proof (induction ks arbitrary: h d h')
  case Nil
  then show ?case by (simp add: keys_def)
next
  case (Cons k ks)
  obtain a h1 where z: "float32_zero h = (a, h1)" by fastforce
  obtain d1 h2 where r: "zero_rewards ks h1 = (d1, h2)" by fastforce
  from z have a: "a = next_free h" "next_free h1 = Suc (next_free h)"
    "cells h1 = (cells h)(next_free h := \<lparr>dtype = Float32, item = Fin 0\<rparr>)"
    by (auto simp: float32_zero_def alloc_def)
  from Cons.prems z r have d: "d = (k, a) # d1" "h' = h2" by auto
  from Cons.IH [OF r] a d show ?case
    by (fastforce simp: keys_def)
qed

lemma map_structure_copy_props:
  "map_structure_copy d h = (d', h') \<Longrightarrow>
     keys d' = keys d \<and> next_free h' = next_free h + length d
     \<and> distinct (map snd d')
     \<and> (\<forall>a\<in>snd ` set d'. next_free h \<le> a \<and> a < next_free h')
     \<and> (\<forall>a<next_free h. cells h' a = cells h a)
     \<and> ((\<forall>a\<in>snd ` set d. a < next_free h) \<longrightarrow> values_of h' d' = values_of h d)"
proof (induction d arbitrary: h d' h')
  case Nil
  then show ?case by (simp add: keys_def values_of_def)
next
  case (Cons x d)
  obtain k a where x: "x = (k, a)" by fastforce
  obtain a' h1 where z: "np_copy a h = (a', h1)" by fastforce
  obtain d1 h2 where r: "map_structure_copy d h1 = (d1, h2)" by fastforce
  from z have a: "a' = next_free h" "next_free h1 = Suc (next_free h)"
    "cells h1 = (cells h)(next_free h := cells h a)"
    by (auto simp: np_copy_def alloc_def)
  from Cons.prems x z r have d: "d' = (k, a') # d1" "h' = h2" by auto
  note IH = Cons.IH [OF r]
  have vals: "values_of h' d' = values_of h (x # d)" if old: "\<forall>a\<in>snd ` set (x # d). a < next_free h"
  proof -
    from old have "\<forall>a\<in>snd ` set d. a < next_free h1" using a by auto
    with IH have "values_of h2 d1 = values_of h1 d" by blast
    also have "values_of h1 d = values_of h d"
      using old a by (auto simp: values_of_def)
    finally have "values_of h2 d1 = values_of h d" .
    moreover have "cells h2 a' = cells h a"
      using IH a by simp
    ultimately show ?thesis using d x by (simp add: values_of_def)
  qed
  from IH a d x have "keys d' = keys (x # d)" "next_free h' = next_free h + length (x # d)"
    "distinct (map snd d')" "\<forall>a\<in>snd ` set d'. next_free h \<le> a \<and> a < next_free h'"
    "\<forall>a<next_free h. cells h' a = cells h a"
    by (fastforce simp: keys_def)+
  with vals show ?case by blast
qed

lemma imul_leaves_frame:
  "imul_leaves targets sources h = Inr h' \<Longrightarrow>
     next_free h' = next_free h
     \<and> (\<forall>a. a \<notin> snd ` set targets \<longrightarrow> cells h' a = cells h a)
     \<and> (\<forall>a. dtype (cells h' a) = dtype (cells h a))"
proof (induction targets sources h rule: imul_leaves.induct)
  case (1 sources h)
  then show ?case by simp
next
  case (2 k t targets sources h)
  from "2.prems" obtain h1 where 1: "operator_imul t (leaf sources k) h = Inr h1"
    and rest: "imul_leaves targets sources h1 = Inr h'"
    by (auto split: sum.splits)
  from "2.IH" [OF 1 rest] operator_imul_Inr [OF 1] show ?case by auto
qed

lemma iadd_leaves_frame:
  "iadd_leaves nsrs srs tds h = Inr h' \<Longrightarrow>
     next_free h' = next_free h
     \<and> (\<forall>a. a \<notin> snd ` set nsrs \<longrightarrow> cells h' a = cells h a)
     \<and> (\<forall>a. dtype (cells h' a) = dtype (cells h a))"
proof (induction nsrs srs tds h rule: iadd_leaves.induct)
  case (1 srs tds h)
  then show ?case by simp
next
  case (2 k n nsrs srs tds h)
  from "2.prems" obtain h1 where 1: "iadd_product n (leaf srs k) (leaf tds k) h = Inr h1"
    and rest: "iadd_leaves nsrs srs tds h1 = Inr h'"
    by (auto split: sum.splits)
  from "2.IH" [OF 1 rest] iadd_product_Inr [OF 1] show ?case by auto
qed

lemma imul_leaves_item:
  assumes "imul_leaves targets sources h = Inr h'"
    and "distinct (map snd targets)"
    and "\<forall>k\<in>set (keys targets). leaf sources k \<notin> snd ` set targets"
    and "(k, t) \<in> set targets"
  shows "imul_val (cells h t) (cells h (leaf sources k)) = Inr (cells h' t)"
  using assms
proof (induction targets sources h rule: imul_leaves.induct)
  case (1 sources h)
  then show ?case by simp
next
  case (2 k0 t0 targets sources h)
  from "2.prems"(1) obtain h1 where 1: "operator_imul t0 (leaf sources k0) h = Inr h1"
    and rest: "imul_leaves targets sources h1 = Inr h'"
    by (auto split: sum.splits)
  note o = operator_imul_Inr [OF 1]
  show ?case
  proof (cases "(k, t) = (k0, t0)")
    case True
    with "2.prems" have "t \<notin> snd ` set targets" by auto
    with imul_leaves_frame [OF rest] have "cells h' t = cells h1 t" by blast
    with True o(2) show ?thesis by simp
  next
    case False
    with "2.prems" have in_rest: "(k, t) \<in> set targets" by auto
    with "2.prems" have ne: "t \<noteq> t0" by (auto simp: image_iff)
    from "2.prems" in_rest have ne2: "leaf sources k \<noteq> t0" by (auto simp: keys_def image_iff)
    from "2.prems" have "distinct (map snd targets)"
      "\<forall>k\<in>set (keys targets). leaf sources k \<notin> snd ` set targets"
      by (auto simp: keys_def)
    from "2.IH" [OF 1 rest this in_rest] o(3) [OF ne] o(3) [OF ne2] show ?thesis
      by simp
  qed
qed

lemma iadd_leaves_item:
  assumes "iadd_leaves nsrs srs tds h = Inr h'"
    and "distinct (map snd nsrs)"
    and "\<forall>k\<in>set (keys nsrs). leaf srs k \<notin> snd ` set nsrs \<and> leaf tds k \<notin> snd ` set nsrs"
    and "(k, n) \<in> set nsrs"
  shows "iadd_val (cells h n) (cells h (leaf srs k)) (cells h (leaf tds k)) = Inr (cells h' n)"
  using assms
proof (induction nsrs srs tds h rule: iadd_leaves.induct)
  case (1 srs tds h)
  then show ?case by simp
next
  case (2 k0 n0 nsrs srs tds h)
  from "2.prems"(1) obtain h1 where 1: "iadd_product n0 (leaf srs k0) (leaf tds k0) h = Inr h1"
    and rest: "iadd_leaves nsrs srs tds h1 = Inr h'"
    by (auto split: sum.splits)
  note o = iadd_product_Inr [OF 1]
  show ?case
  proof (cases "(k, n) = (k0, n0)")
    case True
    with "2.prems" have "n \<notin> snd ` set nsrs" by auto
    with iadd_leaves_frame [OF rest] have "cells h' n = cells h1 n" by blast
    with True o(2) show ?thesis by simp
  next
    case False
    with "2.prems" have in_rest: "(k, n) \<in> set nsrs" by auto
    with "2.prems" have ne: "n \<noteq> n0" by (auto simp: image_iff)
    from "2.prems" in_rest have ne2: "leaf srs k \<noteq> n0" "leaf tds k \<noteq> n0"
      by (auto simp: keys_def image_iff)
    from "2.prems" have "distinct (map snd nsrs)"
      "\<forall>k\<in>set (keys nsrs). leaf srs k \<notin> snd ` set nsrs \<and> leaf tds k \<notin> snd ` set nsrs"
      by (auto simp: keys_def)
    from "2.IH" [OF 1 rest this in_rest] o(3) [OF ne] o(3) [OF ne2(1)] o(3) [OF ne2(2)]
    show ?thesis by simp
  qed
qed

subsection \<open>The buffered steps are not written to\<close>

lemma rewards_or_zeros_frame:
  assumes "rewards_or_zeros s h = (r, h1)"
  shows "next_free h \<le> next_free h1" and "\<forall>a<next_free h. cells h1 a = cells h a"
  using assms zero_rewards_props [of "keys (discounts s)" h r h1]
  by (auto simp: rewards_or_zeros_def split: if_splits)

text \<open>One successful round of the loop, taken apart.\<close>

lemma accumulate_Cons_Inr:
  assumes "accumulate (step # steps) nsr td sd h = Inr h'"
  obtains r h1 h2 h3 h4 where
    "rewards_or_zeros step h = (r, h1)"
    "same_structure r (discounts step)" "same_structure td (discounts step)"
    "same_structure sd td" "same_structure r nsr" "same_structure td nsr"
    "imul_leaves td sd h1 = Inr h2"
    "iadd_leaves nsr r td h2 = Inr h3"
    "imul_leaves td (discounts step) h3 = Inr h4"
    "accumulate steps nsr td sd h4 = Inr h'"
proof -
  obtain r h1 where r: "rewards_or_zeros step h = (r, h1)" by fastforce
  from assms r have ks: "same_structure r (discounts step)" "same_structure td (discounts step)"
    by (auto simp: broadcast_structures_def split: if_splits)
  with assms r obtain h2 where 2: "map_structure_imul td sd h1 = Inr h2"
    by (auto simp: broadcast_structures_def split: sum.splits)
  with assms r ks obtain h3 where 3: "map_structure_iadd nsr r td h2 = Inr h3"
    by (auto simp: broadcast_structures_def split: sum.splits)
  with assms r ks 2 obtain h4 where 4: "map_structure_imul td (discounts step) h3 = Inr h4"
    by (auto simp: broadcast_structures_def split: sum.splits)
  with assms r ks 2 3 have rest: "accumulate steps nsr td sd h4 = Inr h'"
    by (auto simp: broadcast_structures_def)
  from 2 have "same_structure sd td" "imul_leaves td sd h1 = Inr h2"
    by (auto simp: map_structure_imul_def split: if_splits)
  moreover from 3 have "same_structure r nsr" "same_structure td nsr"
    "iadd_leaves nsr r td h2 = Inr h3"
    by (auto simp: map_structure_iadd_def split: if_splits)
  moreover from 4 have "imul_leaves td (discounts step) h3 = Inr h4"
    by (auto simp: map_structure_imul_def split: if_splits)
  ultimately show ?thesis using r ks rest by (intro that)
qed

lemma outside_range:
  "\<forall>a\<in>S. n \<le> a \<and> a < m \<Longrightarrow> b < n \<or> m \<le> b \<Longrightarrow> (b::nat) \<notin> S"
  by (meson leD)

lemma below_not_in:
  "\<forall>a\<in>S. n \<le> a \<Longrightarrow> b < n \<Longrightarrow> (b::nat) \<notin> S"
  by (meson leD)

lemma accumulate_frame:
  assumes "accumulate steps nsr td sd h = Inr h'"
    and "\<forall>a\<in>snd ` set nsr \<union> snd ` set td. n \<le> a"
    and "n \<le> next_free h"
  shows "next_free h \<le> next_free h' \<and> (\<forall>a<n. cells h' a = cells h a)"
  using assms
proof (induction steps arbitrary: h)
  case Nil
  then show ?case by simp
next
  case (Cons step steps)
  from Cons.prems(1) obtain r h1 h2 h3 h4 where
    r: "rewards_or_zeros step h = (r, h1)"
    and p1: "imul_leaves td sd h1 = Inr h2"
    and p2: "iadd_leaves nsr r td h2 = Inr h3"
    and p3: "imul_leaves td (discounts step) h3 = Inr h4"
    and rest: "accumulate steps nsr td sd h4 = Inr h'"
    by (rule accumulate_Cons_Inr)
  note f1 = imul_leaves_frame [OF p1] and f2 = iadd_leaves_frame [OF p2]
    and f3 = imul_leaves_frame [OF p3]
  from f1 f2 f3 have nf: "next_free h4 = next_free h1" by simp
  have old: "cells h4 a = cells h1 a" if "a < n" for a
  proof -
    from below_not_in [OF Cons.prems(2) that]
    have "a \<notin> snd ` set td" "a \<notin> snd ` set nsr" by blast+
    with f1 f2 f3 show ?thesis by simp
  qed
  from rewards_or_zeros_frame [OF r] Cons.prems(3)
  have h1: "n \<le> next_free h1" "next_free h \<le> next_free h1" "\<forall>a<n. cells h1 a = cells h a"
    by auto
  from h1(1) nf have "n \<le> next_free h4" by simp
  from Cons.IH [OF rest Cons.prems(2) this] h1 nf old show ?case by auto
qed

lemma accumulators_Inr:
  assumes "accumulators A s0 steps h = Inr (nsr, td, ds, h')"
  obtains r h1 h2 h3 where
    "rewards_or_zeros s0 h = (r, h1)"
    "map_structure_copy (discounts s0) h1 = (td, h2)"
    "map_structure_copy r h2 = (nsr, h3)"
    "ds = map (\<lambda>agent. (agent, adder_discount A)) (keys (observations s0))"
    "same_structure (discounts s0) r" "same_structure ds r"
    "accumulate steps nsr td ds h3 = Inr h'"
proof -
  obtain r h1 where r: "rewards_or_zeros s0 h = (r, h1)" by fastforce
  obtain td' h2 where c1: "map_structure_copy (discounts s0) h1 = (td', h2)" by fastforce
  obtain nsr' h3 where c2: "map_structure_copy r h2 = (nsr', h3)" by fastforce
  from assms r c1 c2 have "nsr = nsr'" "td = td'"
    "ds = map (\<lambda>agent. (agent, adder_discount A)) (keys (observations s0))"
    "same_structure (discounts s0) r" "same_structure ds r"
    "accumulate steps nsr' td' ds h3 = Inr h'"
    by (auto simp: accumulators_def Let_def broadcast_structures_def
                   map_structure_broadcast_copy_def split: if_splits sum.splits)
  with r c1 c2 show ?thesis by (intro that [of r h1 h2 h3]) simp_all
qed

lemma accumulators_frame:
  assumes "accumulators A s0 steps h = Inr (nsr, td, ds, h')"
  shows "next_free h \<le> next_free h'" and "\<forall>a<next_free h. cells h' a = cells h a"
proof -
  from assms obtain r h1 h2 h3 where
    r: "rewards_or_zeros s0 h = (r, h1)"
    and c1: "map_structure_copy (discounts s0) h1 = (td, h2)"
    and c2: "map_structure_copy r h2 = (nsr, h3)"
    and acc: "accumulate steps nsr td ds h3 = Inr h'"
    by (rule accumulators_Inr)
  note p1 = map_structure_copy_props [OF c1] and p2 = map_structure_copy_props [OF c2]
  note f = rewards_or_zeros_frame [OF r]
  have fresh: "\<forall>a\<in>snd ` set nsr \<union> snd ` set td. next_free h \<le> a"
  proof
    fix a assume "a \<in> snd ` set nsr \<union> snd ` set td"
    with p1 p2 have "next_free h1 \<le> a" by fastforce
    with f(1) show "next_free h \<le> a" by simp
  qed
  from p1 p2 f have le: "next_free h \<le> next_free h3" by simp
  from accumulate_frame [OF acc fresh le] p1 p2 f
  show "next_free h \<le> next_free h'" and "\<forall>a<next_free h. cells h' a = cells h a"
    by auto
qed

subsection \<open>The values of the accumulators\<close>

lemma leaf_in: "k \<in> set (keys d) \<Longrightarrow> (k, leaf d k) \<in> set d"
  by (induction d) (auto simp: keys_def leaf_def)

lemma leaf_distinct: "distinct (keys d) \<Longrightarrow> (k, v) \<in> set d \<Longrightarrow> leaf d k = v"
  by (simp add: keys_def leaf_def)

lemma mem_keys: "(k, v) \<in> set d \<Longrightarrow> k \<in> set (keys d)"
  by (force simp: keys_def)

lemma refs_below_iff: "refs_below n d \<longleftrightarrow> (\<forall>a\<in>snd ` set d. a < n)"
  by (auto simp: refs_below_def list_all_iff)

lemma refs_below_mono: "refs_below n d \<Longrightarrow> n \<le> m \<Longrightarrow> refs_below m d"
  by (auto simp: refs_below_def list_all_iff)

lemma refs_belowD: "refs_below n d \<Longrightarrow> k \<in> set (keys d) \<Longrightarrow> leaf d k < n"
  using leaf_in [of k d] by (auto simp: refs_below_def list_all_iff)

lemma rewards_or_zeros_keys:
  assumes "rewards_or_zeros s h = (r, h1)"
  shows "keys r = (if rewards s = [] then keys (discounts s) else keys (rewards s))"
proof (cases "rewards s = []")
  case True
  with assms have "zero_rewards (keys (discounts s)) h = (r, h1)"
    by (simp add: rewards_or_zeros_def)
  from zero_rewards_props [OF this] True show ?thesis by simp
next
  case False
  with assms show ?thesis by (simp add: rewards_or_zeros_def)
qed

lemma rewards_or_zeros_props:
  assumes "rewards_or_zeros s h = (r, h1)" and "refs_below n (rewards s)" and "n \<le> next_free h"
  shows "\<forall>a\<in>snd ` set r. a < n \<or> next_free h \<le> a"
    and "\<forall>a\<in>snd ` set r. a < next_free h1"
    and "k \<in> set (keys r) \<Longrightarrow> cells h1 (leaf r k) = reward_cell h s k"
proof -
  show "\<forall>a\<in>snd ` set r. a < n \<or> next_free h \<le> a"
  proof (cases "rewards s = []")
    case True
    with assms(1) have "zero_rewards (keys (discounts s)) h = (r, h1)"
      by (simp add: rewards_or_zeros_def)
    from zero_rewards_props [OF this] show ?thesis by blast
  next
    case False
    with assms(1) have "r = rewards s" by (simp add: rewards_or_zeros_def)
    with assms(2) show ?thesis by (simp only: refs_below_iff) blast
  qed
  show "\<forall>a\<in>snd ` set r. a < next_free h1"
  proof (cases "rewards s = []")
    case True
    with assms(1) have "zero_rewards (keys (discounts s)) h = (r, h1)"
      by (simp add: rewards_or_zeros_def)
    from zero_rewards_props [OF this] show ?thesis by blast
  next
    case False
    with assms(1) have "r = rewards s" "h1 = h" by (simp_all add: rewards_or_zeros_def)
    with refs_below_mono [OF assms(2,3)] show ?thesis by (simp only: refs_below_iff)
  qed
  show "cells h1 (leaf r k) = reward_cell h s k" if k: "k \<in> set (keys r)"
  proof (cases "rewards s = []")
    case True
    from leaf_in [OF k] have "leaf r k \<in> snd ` set r" by force
    moreover from True assms(1) have "zero_rewards (keys (discounts s)) h = (r, h1)"
      by (simp add: rewards_or_zeros_def)
    ultimately have "cells h1 (leaf r k) = \<lparr>dtype = Float32, item = Fin 0\<rparr>"
      using zero_rewards_props [of "keys (discounts s)" h r h1] by blast
    with True show ?thesis by (simp add: reward_cell_def)
  next
    case False
    with assms(1) show ?thesis by (simp add: rewards_or_zeros_def reward_cell_def)
  qed
qed

text \<open>A successful run of the loop tells the key sets of all steps.\<close>

lemma accumulate_keys:
  assumes "accumulate steps nsr td sd h = Inr h'"
  shows "\<forall>s\<in>set steps. set (keys (discounts s)) = set (keys td)
           \<and> (rewards s = [] \<or> set (keys (rewards s)) = set (keys td))"
  using assms
proof (induction steps arbitrary: h)
  case Nil
  then show ?case by simp
next
  case (Cons step steps)
  from Cons.prems obtain r h1 h4 where
    r: "rewards_or_zeros step h = (r, h1)"
    and ks: "same_structure r (discounts step)" "same_structure td (discounts step)"
    and rest: "accumulate steps nsr td sd h4 = Inr h'"
    by (rule accumulate_Cons_Inr)
  from rewards_or_zeros_keys [OF r] have "rewards step \<noteq> [] \<Longrightarrow> keys r = keys (rewards step)"
    by simp
  with ks Cons.IH [OF rest] show ?case
    by (auto simp: same_structure_def)
qed

text \<open>One round of the loop, seen at one agent.\<close>

lemma accumulate_step_values:
  assumes r: "rewards_or_zeros step h = (r, h1)"
    and ks: "same_structure r (discounts step)" "same_structure td (discounts step)"
      "same_structure sd td" "same_structure r nsr" "same_structure td nsr"
    and p1: "imul_leaves td sd h1 = Inr h2"
    and p2: "iadd_leaves nsr r td h2 = Inr h3"
    and p3: "imul_leaves td (discounts step) h3 = Inr h4"
    and old_step: "refs_below n (rewards step)" "refs_below n (discounts step)"
    and old_sd: "refs_below n sd"
    and n: "n \<le> next_free h"
    and fresh: "\<forall>a\<in>snd ` set nsr \<union> snd ` set td. n \<le> a \<and> a < next_free h"
    and dist: "distinct (map snd nsr @ map snd td)"
    and dk: "distinct (keys td)"
    and kn: "(k, na) \<in> set nsr" and kt: "(k, ta) \<in> set td"
  shows "\<exists>t1. imul_val (cells h ta) (cells h (leaf sd k)) = Inr t1
           \<and> iadd_val (cells h na) (reward_cell h step k) t1 = Inr (cells h4 na)
           \<and> imul_val t1 (discount_cell h step k) = Inr (cells h4 ta)"
proof -
  let ?N = "snd ` set nsr" and ?T = "snd ` set td"
  from kn kt have na: "na \<in> ?N" and ta: "ta \<in> ?T" by force+
  from dist have dn: "distinct (map snd nsr)" and dt: "distinct (map snd td)"
    and disj: "?N \<inter> ?T = {}" by auto
  from na ta disj have na_nt: "na \<notin> ?T" and ta_nn: "ta \<notin> ?N" by auto
  from mem_keys [OF kt] have k_td: "k \<in> set (keys td)" .
  have key_in: "k' \<in> set (keys sd)" "k' \<in> set (keys r)" "k' \<in> set (keys (discounts step))"
    "k' \<in> set (keys td)" if "k' \<in> set (keys td) \<or> k' \<in> set (keys nsr)" for k'
    using that ks by (auto simp: same_structure_def)
  note f = rewards_or_zeros_frame [OF r]
  note p = rewards_or_zeros_props [OF r old_step(1) n]
  note f1 = imul_leaves_frame [OF p1] and f2 = iadd_leaves_frame [OF p2]
    and f3 = imul_leaves_frame [OF p3]
  \<comment> \<open>the sources of the three passes are not among the accumulators\<close>
  have below: "a \<notin> ?N \<union> ?T" if "a < n \<or> next_free h \<le> a" for a
    using outside_range [OF fresh that] .
  have src_sd: "leaf sd k' \<notin> ?N \<union> ?T" if "k' \<in> set (keys td) \<or> k' \<in> set (keys nsr)" for k'
    using refs_belowD [OF old_sd key_in(1) [OF that]] below by blast
  have src_d: "leaf (discounts step) k' \<notin> ?N \<union> ?T"
    if "k' \<in> set (keys td) \<or> k' \<in> set (keys nsr)" for k'
    using refs_belowD [OF old_step(2) key_in(3) [OF that]] below by blast
  have src_r: "leaf r k' \<notin> ?N \<union> ?T" if "k' \<in> set (keys td) \<or> k' \<in> set (keys nsr)" for k'
  proof -
    from leaf_in [OF key_in(2) [OF that]] have "leaf r k' \<in> snd ` set r" by force
    with p(1) below show ?thesis by blast
  qed
  have src_td: "leaf td k' \<in> ?T" if "k' \<in> set (keys td) \<or> k' \<in> set (keys nsr)" for k'
    using leaf_in [OF key_in(4) [OF that]] by force
  have leaf_td: "leaf td k = ta" using leaf_distinct [OF dk kt] .
  \<comment> \<open>the cells read, in the heap before the round\<close>
  have h1_old: "cells h1 a = cells h a" if "a < next_free h" for a
    using f(2) that by simp
  from fresh na ta have lt: "na < next_free h" "ta < next_free h" by auto
  have g: "cells h1 (leaf sd k) = cells h (leaf sd k)"
    using refs_belowD [OF old_sd key_in(1)] k_td n by (intro h1_old) fastforce
  have d: "cells h1 (leaf (discounts step) k) = cells h (leaf (discounts step) k)"
    using refs_belowD [OF old_step(2) key_in(3)] k_td n by (intro h1_old) fastforce
  have rv: "cells h1 (leaf r k) = reward_cell h step k"
    using p(3) key_in(2) k_td by blast
  \<comment> \<open>pass 1\<close>
  have "\<forall>k'\<in>set (keys td). leaf sd k' \<notin> ?T" using src_sd by blast
  from imul_leaves_item [OF p1 dt this kt]
  have t2: "imul_val (cells h ta) (cells h (leaf sd k)) = Inr (cells h2 ta)"
    using h1_old lt g by simp
  have h2_other: "cells h2 a = cells h1 a" if "a \<notin> ?T" for a
    using f1 that by blast
  \<comment> \<open>pass 2\<close>
  have "\<forall>k'\<in>set (keys nsr). leaf r k' \<notin> ?N \<and> leaf td k' \<notin> ?N"
    using src_r src_td disj by blast
  from iadd_leaves_item [OF p2 dn this kn]
  have n3: "iadd_val (cells h na) (reward_cell h step k) (cells h2 ta) = Inr (cells h3 na)"
    using h2_other [OF na_nt] h2_other [of "leaf r k"] src_r [of k] k_td h1_old lt rv leaf_td
    by simp
  have h3_other: "cells h3 a = cells h2 a" if "a \<notin> ?N" for a
    using f2 that by blast
  \<comment> \<open>pass 3\<close>
  have "\<forall>k'\<in>set (keys td). leaf (discounts step) k' \<notin> ?T" using src_d by blast
  from imul_leaves_item [OF p3 dt this kt]
  have "imul_val (cells h3 ta) (cells h3 (leaf (discounts step) k)) = Inr (cells h4 ta)" .
  moreover have "cells h3 (leaf (discounts step) k) = cells h (leaf (discounts step) k)"
    using h3_other [of "leaf (discounts step) k"] h2_other [of "leaf (discounts step) k"]
      src_d [of k] k_td d by simp
  ultimately have t4: "imul_val (cells h2 ta) (discount_cell h step k) = Inr (cells h4 ta)"
    using h3_other [OF ta_nn] by (simp add: discount_cell_def)
  have "cells h4 na = cells h3 na"
    using f3 na_nt by blast
  with t2 n3 t4 show ?thesis by simp
qed

text \<open>The whole loop, seen at one agent: the fold of the rounds over the later steps.\<close>

lemma accumulate_values:
  assumes "accumulate steps nsr td sd h = Inr h'"
    and "\<forall>s\<in>set steps. refs_below n (rewards s) \<and> refs_below n (discounts s)"
    and "refs_below n sd"
    and "n \<le> next_free h"
    and "\<forall>a\<in>snd ` set nsr \<union> snd ` set td. n \<le> a \<and> a < next_free h"
    and "distinct (map snd nsr @ map snd td)"
    and "distinct (keys td)"
    and "(k, na) \<in> set nsr" and "(k, ta) \<in> set td"
  shows "fold_return (cells h (leaf sd k))
           (map (\<lambda>s. (reward_cell h s k, discount_cell h s k)) steps)
           (cells h na, cells h ta)
         = Inr (cells h' na, cells h' ta)"
  using assms
proof (induction steps arbitrary: h)
  case Nil
  then show ?case by simp
next
  case (Cons step steps)
  from Cons.prems(1) obtain r h1 h2 h3 h4 where
    r: "rewards_or_zeros step h = (r, h1)"
    and ks: "same_structure r (discounts step)" "same_structure td (discounts step)"
      "same_structure sd td" "same_structure r nsr" "same_structure td nsr"
    and p: "imul_leaves td sd h1 = Inr h2" "iadd_leaves nsr r td h2 = Inr h3"
      "imul_leaves td (discounts step) h3 = Inr h4"
    and rest: "accumulate steps nsr td sd h4 = Inr h'"
    by (rule accumulate_Cons_Inr)
  from Cons.prems(2) have old_step: "refs_below n (rewards step)" "refs_below n (discounts step)"
    and old_steps: "\<forall>s\<in>set steps. refs_below n (rewards s) \<and> refs_below n (discounts s)"
    by auto
  from accumulate_step_values [OF r ks p old_step Cons.prems(3-9)]
  obtain t1 where step: "imul_val (cells h ta) (cells h (leaf sd k)) = Inr t1"
    "iadd_val (cells h na) (reward_cell h step k) t1 = Inr (cells h4 na)"
    "imul_val t1 (discount_cell h step k) = Inr (cells h4 ta)"
    by blast
  \<comment> \<open>the heap after the round: nothing below \<open>n\<close> has changed\<close>
  note f1 = imul_leaves_frame [OF p(1)] and f2 = iadd_leaves_frame [OF p(2)]
    and f3 = imul_leaves_frame [OF p(3)]
  from f1 f2 f3 have nf: "next_free h4 = next_free h1" by simp
  note f = rewards_or_zeros_frame [OF r]
  have old: "cells h4 a = cells h a" if "a < n" for a
  proof -
    have "\<forall>a\<in>snd ` set nsr \<union> snd ` set td. n \<le> a" using Cons.prems(5) by blast
    from below_not_in [OF this that]
    have "a \<notin> snd ` set td" "a \<notin> snd ` set nsr" by blast+
    with f1 f2 f3 have "cells h4 a = cells h1 a" by simp
    with f(2) that Cons.prems(4) show ?thesis by simp
  qed
  from f(1) nf Cons.prems(4) have n4: "n \<le> next_free h4" by simp
  have fresh4: "\<forall>a\<in>snd ` set nsr \<union> snd ` set td. n \<le> a \<and> a < next_free h4"
  proof
    fix a assume "a \<in> snd ` set nsr \<union> snd ` set td"
    with Cons.prems(5) have "n \<le> a \<and> a < next_free h" by blast
    with f(1) nf show "n \<le> a \<and> a < next_free h4" by simp
  qed
  note IH = Cons.IH [OF rest old_steps Cons.prems(3) n4 fresh4 Cons.prems(6-9)]
  \<comment> \<open>the later steps read the same values after the round\<close>
  from mem_keys [OF Cons.prems(9)] have k_td: "k \<in> set (keys td)" .
  from ks k_td have k_sd: "k \<in> set (keys sd)" by (auto simp: same_structure_def)
  have g: "cells h4 (leaf sd k) = cells h (leaf sd k)"
    using refs_belowD [OF Cons.prems(3) k_sd] by (rule old)
  note K = accumulate_keys [OF rest]
  have same: "(reward_cell h4 s k, discount_cell h4 s k) = (reward_cell h s k, discount_cell h s k)"
    if s: "s \<in> set steps" for s
  proof -
    from K s k_td have kd: "k \<in> set (keys (discounts s))"
      and kr: "rewards s = [] \<or> k \<in> set (keys (rewards s))" by auto
    from old_steps s have b: "refs_below n (rewards s)" "refs_below n (discounts s)" by auto
    have "discount_cell h4 s k = discount_cell h s k"
      using old [OF refs_belowD [OF b(2) kd]] by (simp add: discount_cell_def)
    moreover have "reward_cell h4 s k = reward_cell h s k"
    proof (cases "rewards s = []")
      case True
      then show ?thesis by (simp add: reward_cell_def)
    next
      case False
      with kr old [OF refs_belowD [OF b(1)]] show ?thesis by (simp add: reward_cell_def)
    qed
    ultimately show ?thesis by simp
  qed
  then have "map (\<lambda>s. (reward_cell h4 s k, discount_cell h4 s k)) steps
               = map (\<lambda>s. (reward_cell h s k, discount_cell h s k)) steps"
    by simp
  with IH g step show ?case by simp
qed

lemma values_of_mem:
  "(k, v) \<in> set (values_of h d) \<longleftrightarrow> (\<exists>a. (k, a) \<in> set d \<and> v = cells h a)"
  by (auto simp: values_of_def)

lemma keys_values_of: "keys (values_of h d) = keys d"
  by (simp add: keys_def values_of_def comp_def case_prod_unfold)

lemma values_of_cong:
  "(\<And>a. a \<in> snd ` set d \<Longrightarrow> cells h a = cells h' a) \<Longrightarrow> values_of h d = values_of h' d"
  by (force simp: values_of_def)

lemma leaf_values_of:
  "k \<in> set (keys d) \<Longrightarrow> leaf (values_of h d) k = cells h (leaf d k)"
  by (induction d) (auto simp: keys_def leaf_def values_of_def)

lemma leaf_const: "k \<in> set ks \<Longrightarrow> leaf (map (\<lambda>agent. (agent, c)) ks) k = c"
  by (induction ks) (auto simp: leaf_def)

text \<open>A copy of a dictionary with distinct keys holds, under each key, the cell of the source.\<close>

lemma map_structure_copy_leaf:
  assumes "map_structure_copy d h = (d', h')" and "refs_below (next_free h) d"
    and "distinct (keys d)" and "(k, a') \<in> set d'"
  shows "cells h' a' = cells h (leaf d k)"
proof -
  from map_structure_copy_props [OF assms(1)] assms(2)
  have "values_of h' d' = values_of h d" by (simp add: refs_below_iff)
  with assms(4) obtain a where "(k, a) \<in> set d" "cells h' a' = cells h a"
    using values_of_mem [of k "cells h' a'" h' d'] values_of_mem [of k "cells h' a'" h d] by auto
  with leaf_distinct [OF assms(3)] show ?thesis by simp
qed

text \<open>
  The accumulators after the loop, for a buffer whose references are to existing objects
  and whose dictionaries have each key once: the rounds of the loop, folded over the later
  steps from the reward and the discount of the first step.
\<close>

lemma accumulators_values:
  assumes acc: "accumulators A s0 steps h = Inr (nsr, td, ds, h')"
    and g: "adder_discount A < next_free h"
    and refs: "\<forall>s\<in>set (s0 # steps).
                 refs_below (next_free h) (rewards s) \<and> refs_below (next_free h) (discounts s)"
    and dk: "distinct (keys (rewards s0))" "distinct (keys (discounts s0))"
  shows "set (keys nsr) = set (keys (discounts s0))" and "keys td = keys (discounts s0)"
    and "distinct (keys nsr)"
    and "\<And>k. k \<in> set (keys (discounts s0)) \<Longrightarrow>
           fold_return (cells h (adder_discount A))
             (map (\<lambda>s. (reward_cell h s k, discount_cell h s k)) steps)
             (reward_cell h s0 k, discount_cell h s0 k)
           = Inr (cells h' (leaf nsr k), cells h' (leaf td k))"
proof -
  from acc obtain r h1 h2 h3 where
    r: "rewards_or_zeros s0 h = (r, h1)"
    and c1: "map_structure_copy (discounts s0) h1 = (td, h2)"
    and c2: "map_structure_copy r h2 = (nsr, h3)"
    and sd: "ds = map (\<lambda>agent. (agent, adder_discount A)) (keys (observations s0))"
    and ks: "same_structure (discounts s0) r" "same_structure ds r"
    and loop: "accumulate steps nsr td ds h3 = Inr h'"
    by (rule accumulators_Inr)
  note p1 = map_structure_copy_props [OF c1] and p2 = map_structure_copy_props [OF c2]
  note f = rewards_or_zeros_frame [OF r]
  from refs have refs0: "refs_below (next_free h) (rewards s0)" "refs_below (next_free h) (discounts s0)"
    and refs_steps: "\<forall>s\<in>set steps. refs_below (next_free h1) (rewards s)
                       \<and> refs_below (next_free h1) (discounts s)"
    using f(1) by (auto intro: refs_below_mono)
  note pr = rewards_or_zeros_props [OF r refs0(1) order_refl]
  \<comment> \<open>key sets\<close>
  from p1 show keys_td: "keys td = keys (discounts s0)" by simp
  from p2 have keys_nsr: "keys nsr = keys r" by simp
  with ks show keys_set: "set (keys nsr) = set (keys (discounts s0))"
    by (simp add: same_structure_def)
  have dk_r: "distinct (keys r)"
    using rewards_or_zeros_keys [OF r] dk by (cases "rewards s0 = []") auto
  with keys_nsr show "distinct (keys nsr)" by simp
  \<comment> \<open>where the accumulators live\<close>
  from pr(2) have refs_r: "refs_below (next_free h1) r" by (simp only: refs_below_iff)
  have refs_sd: "refs_below (next_free h1) ds"
    using g f(1) by (auto simp: sd refs_below_def list_all_iff)
  from p1 p2 have le: "next_free h1 \<le> next_free h3" by simp
  have fresh: "\<forall>a\<in>snd ` set nsr \<union> snd ` set td. next_free h1 \<le> a \<and> a < next_free h3"
  proof
    fix a assume "a \<in> snd ` set nsr \<union> snd ` set td"
    then show "next_free h1 \<le> a \<and> a < next_free h3"
    proof
      assume "a \<in> snd ` set nsr"
      with p2 have "next_free h2 \<le> a \<and> a < next_free h3" by blast
      with p1 show ?thesis by simp
    next
      assume "a \<in> snd ` set td"
      with p1 have "next_free h1 \<le> a \<and> a < next_free h2" by blast
      with p2 show ?thesis by simp
    qed
  qed
  have disj: "snd ` set nsr \<inter> snd ` set td = {}"
  proof -
    have "a \<notin> snd ` set td" if "a \<in> snd ` set nsr" for a
    proof -
      from that p2 have "next_free h2 \<le> a" by blast
      moreover from p1 have "\<forall>a\<in>snd ` set td. next_free h1 \<le> a \<and> a < next_free h2" by blast
      ultimately show ?thesis by (intro outside_range [where n = "next_free h1" and m = "next_free h2"]) auto
    qed
    then show ?thesis by blast
  qed
  with p1 p2 have dist: "distinct (map snd nsr @ map snd td)" by simp
  from keys_td dk have dk_td: "distinct (keys td)" by simp
  \<comment> \<open>what is below \<open>next_free h\<close> is the same in all heaps\<close>
  have h3_old: "cells h3 a = cells h a" if "a < next_free h" for a
    using that p1 p2 f by simp
  note K = accumulate_keys [OF loop]
  have later: "(reward_cell h3 s k, discount_cell h3 s k) = (reward_cell h s k, discount_cell h s k)"
    if s: "s \<in> set steps" and k: "k \<in> set (keys td)" for s k
  proof -
    from K s k have kd: "k \<in> set (keys (discounts s))"
      and kr: "rewards s = [] \<or> k \<in> set (keys (rewards s))" by auto
    from refs s have b: "refs_below (next_free h) (rewards s)" "refs_below (next_free h) (discounts s)"
      by auto
    have "discount_cell h3 s k = discount_cell h s k"
      using h3_old [OF refs_belowD [OF b(2) kd]] by (simp add: discount_cell_def)
    moreover have "reward_cell h3 s k = reward_cell h s k"
    proof (cases "rewards s = []")
      case True
      then show ?thesis by (simp add: reward_cell_def)
    next
      case False
      with kr h3_old [OF refs_belowD [OF b(1)]] show ?thesis by (simp add: reward_cell_def)
    qed
    ultimately show ?thesis by simp
  qed
  \<comment> \<open>the seeds\<close>
  have seed_td: "cells h3 ta = discount_cell h s0 k" if "(k, ta) \<in> set td" for k ta
  proof -
    from refs0(2) f(1) have "refs_below (next_free h1) (discounts s0)"
      by (auto intro: refs_below_mono)
    from map_structure_copy_leaf [OF c1 this dk(2) that]
    have "cells h2 ta = cells h1 (leaf (discounts s0) k)" .
    moreover from mem_keys [OF that] have "k \<in> set (keys (discounts s0))"
      using keys_td by simp
    from refs_belowD [OF refs0(2) this] f(2)
    have "cells h1 (leaf (discounts s0) k) = cells h (leaf (discounts s0) k)" by simp
    moreover from that p1 have "ta < next_free h2" by force
    with p2 have "cells h3 ta = cells h2 ta" by simp
    ultimately show ?thesis by (simp add: discount_cell_def)
  qed
  have seed_nsr: "cells h3 na = reward_cell h s0 k" if "(k, na) \<in> set nsr" for k na
  proof -
    from refs_r p1 have "refs_below (next_free h2) r" by (auto intro: refs_below_mono)
    from map_structure_copy_leaf [OF c2 this dk_r that]
    have 1: "cells h3 na = cells h2 (leaf r k)" .
    from mem_keys [OF that] have kr: "k \<in> set (keys r)" using keys_nsr by simp
    from refs_belowD [OF refs_r kr] p1 have 2: "cells h2 (leaf r k) = cells h1 (leaf r k)" by simp
    with 1 pr(3) [OF kr] show ?thesis by simp
  qed
  \<comment> \<open>the loop\<close>
  show "fold_return (cells h (adder_discount A))
             (map (\<lambda>s. (reward_cell h s k, discount_cell h s k)) steps)
             (reward_cell h s0 k, discount_cell h s0 k)
           = Inr (cells h' (leaf nsr k), cells h' (leaf td k))"
    if k: "k \<in> set (keys (discounts s0))" for k
  proof -
    from k keys_td have k_td: "k \<in> set (keys td)" by simp
    from k keys_set have k_nsr: "k \<in> set (keys nsr)" by simp
    note ta = leaf_in [OF k_td] and na = leaf_in [OF k_nsr]
    from k ks have "k \<in> set (keys (observations s0))"
      by (auto simp: same_structure_def sd keys_def comp_def)
    then have "leaf ds k = adder_discount A" by (simp add: sd leaf_const)
    with g have gk: "cells h3 (leaf ds k) = cells h (adder_discount A)"
      by (simp add: h3_old)
    from later k_td
    have m: "map (\<lambda>s. (reward_cell h3 s k, discount_cell h3 s k)) steps
            = map (\<lambda>s. (reward_cell h s k, discount_cell h s k)) steps"
      by simp
    show ?thesis
      using accumulate_values [OF loop refs_steps refs_sd le fresh dist dk_td na ta]
      by (simp only: gk m seed_td [OF ta] seed_nsr [OF na])
  qed
qed

subsection \<open>Rounding\<close>

lemma pow2_less_imp: "(2::real) powi a < 2 powi b \<Longrightarrow> a < b"
  using power_int_increasing [of b a "2::real"] by (cases "a < b") auto

lemma pow2_pos [simp]: "\<not> (2::real) powi a \<le> 0"
  by (simp add: not_le)

lemma find_exponent_eq:
  "e \<le> e0 \<Longrightarrow> e0 \<le> e + int n \<Longrightarrow> 2 powi e0 \<le> x \<Longrightarrow> x < 2 powi (e0 + 1)
     \<Longrightarrow> find_exponent x e n = e0"
proof (induction n arbitrary: e)
  case 0
  then show ?case by simp
next
  case (Suc n)
  show ?case
  proof (cases "2 powi (e + 1) \<le> x")
    case True
    with Suc.prems(4) have "(2::real) powi (e + 1) < 2 powi (e0 + 1)" by simp
    then have "e + 1 \<le> e0" using pow2_less_imp [of "e + 1" "e0 + 1"] by simp
    with Suc.IH [of "e + 1"] Suc.prems True show ?thesis by simp
  next
    case False
    with Suc.prems(3) have "(2::real) powi e0 < 2 powi (e + 1)" by simp
    then have "e0 \<le> e" using pow2_less_imp [of e0 "e + 1"] by simp
    with Suc.prems(1) False show ?thesis by simp
  qed
qed

lemma find_exponent_zero: "find_exponent 0 e n = e"
  by (cases n) simp_all

lemma exponent_eq:
  assumes "emin T \<le> e" and "e \<le> emax T" and "2 powi e \<le> \<bar>x\<bar>" and "\<bar>x\<bar> < 2 powi (e + 1)"
  shows "exponent T x = e"
  unfolding exponent_def using assms by (intro find_exponent_eq) auto

lemma round_float_eq:
  assumes "emin T \<le> e" and "e \<le> emax T" and "2 powi e \<le> \<bar>x\<bar>" and "\<bar>x\<bar> < 2 powi (e + 1)"
  shows "round_float T x =
     (let q = 2 powi (e - precision T + 1);
          y = of_int (round_half_even (x / q)) * q
      in if 2 powi (emax T + 1) \<le> \<bar>y\<bar> then Inf (0 < y) else Fin y)"
  by (simp add: round_float_def exponent_eq [OF assms])

lemma round_float_zero [simp]: "round_float T 0 = Fin 0"
  by (simp add: round_float_def round_half_even_def)

lemma rhe_int [simp]: "round_half_even (of_int i) = i"
  by (simp add: round_half_even_def)

lemma cast_representable: "is_float T \<Longrightarrow> representable T x \<Longrightarrow> cast T (Fin x) = Fin x"
  by (simp add: cast_def representable_def)

lemma result_type_float32: "is_float T \<Longrightarrow> result_type T Float32 = T"
  by (auto simp: is_float_def)

lemma result_type_same: "result_type T T = T"
  by (cases T) simp_all

text \<open>
  The three operations of a round on finite floating point values of one dtype \<open>T\<close>: the
  exact result, rounded once into \<open>T\<close>.
\<close>

lemma imul_val_float:
  assumes "is_float T" and "S = Float32 \<or> S = T"
    and "representable T t" and "representable T g"
    and "round_float T (t * g) = Fin y" and "representable T y"
  shows "imul_val \<lparr>dtype = T, item = Fin t\<rparr> \<lparr>dtype = S, item = Fin g\<rparr>
           = Inr \<lparr>dtype = T, item = Fin y\<rparr>"
proof -
  from assms(1,2) have R: "result_type T S = T"
    by (auto simp: result_type_float32 result_type_same)
  have "np_multiply \<lparr>dtype = T, item = Fin t\<rparr> \<lparr>dtype = S, item = Fin g\<rparr>
          = \<lparr>dtype = T, item = Fin y\<rparr>"
    using assms(1,3-5) by (simp add: np_multiply_def R cast_representable) (simp add: cast_def)
  with assms(1,6) show ?thesis
    by (simp add: imul_val_def inplace_def cast_representable)
qed



subsection \<open>The rounds on real numbers and the formulas of the docstring\<close>






subsection \<open>Well-formed adders, and when \<^verbatim>\<open>_write\<close> returns\<close>

lemma well_formedD:
  assumes "well_formed A h" and "adder_buffer A = s0 # steps"
  shows "adder_discount A < next_free h"
    and "\<forall>s\<in>set (s0 # steps).
           refs_below (next_free h) (rewards s) \<and> refs_below (next_free h) (discounts s)"
    and "distinct (keys (rewards s0))" and "distinct (keys (discounts s0))"
  using assms by (auto simp: well_formed_def list_all_iff)

lemma keys_singleton: "keys d = [k] \<Longrightarrow> \<exists>v. d = [(k, v)]"
  by (cases d) (auto simp: keys_def)

lemma zero_rewards_list_all:
  "zero_rewards ks h = (d, h1)
     \<Longrightarrow> list_all (\<lambda>(k, a). cells h1 a = \<lparr>dtype = Float32, item = Fin 0\<rparr>) d"
  using zero_rewards_props [of ks h d h1] by (auto simp: list_all_iff)

text \<open>An in-place operation on a floating point array is never refused.\<close>

lemma inplace_float: "is_float (dtype t) \<Longrightarrow> \<exists>v. inplace op t s = Inr v"
  by (simp add: inplace_def Let_def)

lemma imul_leaves_float:
  "\<forall>a\<in>snd ` set targets. is_float (dtype (cells h a))
     \<Longrightarrow> \<exists>h'. imul_leaves targets sources h = Inr h'"
proof (induction targets sources h rule: imul_leaves.induct)
  case (1 sources h)
  then show ?case by simp
next
  case (2 k t targets sources h)
  from "2.prems" have "is_float (dtype (cells h t))" by simp
  from inplace_float [OF this, of np_multiply "cells h (leaf sources k)"]
  obtain h1 where 1: "operator_imul t (leaf sources k) h = Inr h1"
    by (auto simp: operator_imul_def)
  from operator_imul_Inr(4) [OF 1] "2.prems"
  have "\<forall>a\<in>snd ` set targets. is_float (dtype (cells h1 a))" by simp
  from "2.IH" [OF 1 this] 1 show ?case by simp
qed

lemma iadd_leaves_float:
  "\<forall>a\<in>snd ` set nsrs. is_float (dtype (cells h a))
     \<Longrightarrow> \<exists>h'. iadd_leaves nsrs srs tds h = Inr h'"
proof (induction nsrs srs tds h rule: iadd_leaves.induct)
  case (1 srs tds h)
  then show ?case by simp
next
  case (2 k n nsrs srs tds h)
  from "2.prems" have "is_float (dtype (cells h n))" by simp
  from inplace_float [OF this, of np_add "np_multiply (cells h (leaf srs k)) (cells h (leaf tds k))"]
  obtain h1 where 1: "iadd_product n (leaf srs k) (leaf tds k) h = Inr h1"
    by (auto simp: iadd_product_def)
  from iadd_product_Inr(4) [OF 1] "2.prems"
  have "\<forall>a\<in>snd ` set nsrs. is_float (dtype (cells h1 a))" by simp
  from "2.IH" [OF 1 this] 1 show ?case by simp
qed

lemma accumulate_succeeds:
  assumes "\<forall>s\<in>set steps. set (keys (discounts s)) = K
             \<and> (rewards s = [] \<or> set (keys (rewards s)) = K)"
    and "set (keys nsr) = K" and "set (keys td) = K" and "set (keys sd) = K"
    and "\<forall>a\<in>snd ` set nsr \<union> snd ` set td. a < next_free h \<and> is_float (dtype (cells h a))"
  shows "\<exists>h'. accumulate steps nsr td sd h = Inr h'"
  using assms(1,5)
proof (induction steps arbitrary: h)
  case Nil
  then show ?case by simp
next
  case (Cons step steps)
  obtain r h1 where r: "rewards_or_zeros step h = (r, h1)" by fastforce
  from Cons.prems have "set (keys (discounts step)) = K"
    "rewards step = [] \<or> set (keys (rewards step)) = K" by simp_all
  with rewards_or_zeros_keys [OF r] have kr: "set (keys r) = K" "set (keys (discounts step)) = K"
    by auto
  note f = rewards_or_zeros_frame [OF r]
  have fl1: "\<forall>a\<in>snd ` set nsr \<union> snd ` set td. a < next_free h1 \<and> is_float (dtype (cells h1 a))"
  proof
    fix a assume "a \<in> snd ` set nsr \<union> snd ` set td"
    with Cons.prems(2) have "a < next_free h" "is_float (dtype (cells h a))" by blast+
    with f show "a < next_free h1 \<and> is_float (dtype (cells h1 a))" by simp
  qed
  then have "\<forall>a\<in>snd ` set td. is_float (dtype (cells h1 a))" by blast
  from imul_leaves_float [OF this] obtain h2 where 2: "imul_leaves td sd h1 = Inr h2" by blast
  note f2 = imul_leaves_frame [OF 2]
  from fl1 f2 have "\<forall>a\<in>snd ` set nsr. is_float (dtype (cells h2 a))" by simp
  from iadd_leaves_float [OF this] obtain h3 where 3: "iadd_leaves nsr r td h2 = Inr h3" by blast
  note f3 = iadd_leaves_frame [OF 3]
  from fl1 f2 f3 have "\<forall>a\<in>snd ` set td. is_float (dtype (cells h3 a))" by simp
  from imul_leaves_float [OF this] obtain h4 where
    4: "imul_leaves td (discounts step) h3 = Inr h4" by blast
  note f4 = imul_leaves_frame [OF 4]
  have fl4: "\<forall>a\<in>snd ` set nsr \<union> snd ` set td. a < next_free h4 \<and> is_float (dtype (cells h4 a))"
  proof
    fix a assume "a \<in> snd ` set nsr \<union> snd ` set td"
    with fl1 have "a < next_free h1" "is_float (dtype (cells h1 a))" by blast+
    with f2 f3 f4 show "a < next_free h4 \<and> is_float (dtype (cells h4 a))" by simp
  qed
  from Cons.prems have "\<forall>s\<in>set steps. set (keys (discounts s)) = K
             \<and> (rewards s = [] \<or> set (keys (rewards s)) = K)" by simp
  from Cons.IH [OF this fl4] obtain h' where "accumulate steps nsr td sd h4 = Inr h'" by blast
  with r kr assms(2-4) 2 3 4 show ?case
    by (simp add: broadcast_structures_def map_structure_imul_def map_structure_iadd_def
          same_structure_def)
qed

text \<open>
  \<^verbatim>\<open>_write\<close> returns when the steps of the buffer agree on the agents and, if there is more
  than one step, the accumulators are floating point arrays.
\<close>

lemma nstep_write_succeeds:
  assumes "well_formed A h" and "same_agents A" and "float_seeds A h"
  shows "\<exists>A' h'. nstep_write A h = Inr (A', h')"
proof -
  from assms(2) obtain s0 steps where buf: "adder_buffer A = s0 # steps"
    by (auto simp: same_agents_def split: list.splits)
  note wf = well_formedD [OF assms(1) buf]
  define K where "K = set (keys (observations s0))"
  from assms(2) buf have k0: "set (keys (discounts s0)) = K"
    "rewards s0 = [] \<or> set (keys (rewards s0)) = K"
    and ks: "\<forall>s\<in>set steps. set (keys (discounts s)) = K
             \<and> (rewards s = [] \<or> set (keys (rewards s)) = K)"
    by (auto simp: same_agents_def K_def list_all_iff)
  define sd where "sd = map (\<lambda>agent. (agent, adder_discount A)) (keys (observations s0))"
  have ksd: "set (keys sd) = K" by (simp add: sd_def K_def keys_def comp_def)
  obtain r h1 where r: "rewards_or_zeros s0 h = (r, h1)" by fastforce
  obtain td h2 where c1: "map_structure_copy (discounts s0) h1 = (td, h2)" by fastforce
  obtain nsr h3 where c2: "map_structure_copy r h2 = (nsr, h3)" by fastforce
  from rewards_or_zeros_keys [OF r] k0 have kr: "set (keys r) = K" by auto
  note p1 = map_structure_copy_props [OF c1] and p2 = map_structure_copy_props [OF c2]
  from p1 k0 have ktd: "set (keys td) = K" by simp
  from p2 kr have knsr: "set (keys nsr) = K" by simp
  have "\<exists>h'. accumulate steps nsr td sd h3 = Inr h'"
  proof (cases steps)
    case Nil
    then show ?thesis by simp
  next
    case (Cons s1 rest)
    with assms(3) buf have fl: "float_refs h (rewards s0)" "float_refs h (discounts s0)"
      by (simp_all add: float_seeds_def)
    note f = rewards_or_zeros_frame [OF r]
    from wf(2) have refs0: "refs_below (next_free h) (rewards s0)"
      "refs_below (next_free h) (discounts s0)" by simp_all
    note pr = rewards_or_zeros_props [OF r refs0(1) order_refl]
    \<comment> \<open>the seeds are floating point arrays\<close>
    have r_float: "is_float (dtype (cells h1 a))" if "a \<in> snd ` set r" for a
    proof (cases "rewards s0 = []")
      case True
      with r have "zero_rewards (keys (discounts s0)) h = (r, h1)"
        by (simp add: rewards_or_zeros_def)
      from zero_rewards_props [OF this] that show ?thesis by (auto simp: is_float_def)
    next
      case False
      with r have eq: "r = rewards s0" "h1 = h" by (simp_all add: rewards_or_zeros_def)
      with that fl(1) show ?thesis by (auto simp: float_refs_def list_all_iff)
    qed
    have d_float: "is_float (dtype (cells h1 a))" if "a \<in> snd ` set (discounts s0)" for a
    proof -
      from that refs0(2) have "a < next_free h" by (auto simp: refs_below_iff)
      with f have "cells h1 a = cells h a" by simp
      with that fl(2) show ?thesis by (auto simp: float_refs_def list_all_iff)
    qed
    from refs0(2) f(1) have old_d: "\<forall>a\<in>snd ` set (discounts s0). a < next_free h1"
      by (auto simp: refs_below_iff)
    with p1 have v1: "values_of h2 td = values_of h1 (discounts s0)" by blast
    from pr(2) p1 have old_r: "\<forall>a\<in>snd ` set r. a < next_free h2" by fastforce
    with p2 have v2: "values_of h3 nsr = values_of h2 r" by blast
    have td_float: "a < next_free h3 \<and> is_float (dtype (cells h3 a))" if a: "a \<in> snd ` set td" for a
    proof -
      from a obtain k where ka: "(k, a) \<in> set td" by auto
      then have "(k, cells h2 a) \<in> set (values_of h2 td)" by (auto simp: values_of_mem)
      with v1 obtain a0 where "(k, a0) \<in> set (discounts s0)" "cells h2 a = cells h1 a0"
        by (auto simp: values_of_mem)
      with d_float [of a0] have "is_float (dtype (cells h2 a))" by force
      moreover from a p1 have lt: "a < next_free h2" by blast
      with p2 have "cells h3 a = cells h2 a" by simp
      ultimately show ?thesis using lt p2 by simp
    qed
    have nsr_float: "a < next_free h3 \<and> is_float (dtype (cells h3 a))" if a: "a \<in> snd ` set nsr" for a
    proof -
      from a obtain k where ka: "(k, a) \<in> set nsr" by auto
      then have "(k, cells h3 a) \<in> set (values_of h3 nsr)" by (auto simp: values_of_mem)
      with v2 obtain a0 where a0: "(k, a0) \<in> set r" "cells h3 a = cells h2 a0"
        by (auto simp: values_of_mem)
      from a0(1) pr(2) have "a0 < next_free h1" by force
      with p1 have "cells h2 a0 = cells h1 a0" by simp
      with a0 r_float [of a0] have "is_float (dtype (cells h3 a))" by force
      moreover from a p2 have "a < next_free h3" by blast
      ultimately show ?thesis by simp
    qed
    have "\<forall>a\<in>snd ` set nsr \<union> snd ` set td. a < next_free h3 \<and> is_float (dtype (cells h3 a))"
      using td_float nsr_float by blast
    from accumulate_succeeds [OF ks knsr ktd ksd this] show ?thesis .
  qed
  then obtain h' where "accumulate steps nsr td sd h3 = Inr h'" by blast
  with r c1 c2 kr k0 ktd ksd have "accumulators A s0 steps h = Inr (nsr, td, sd, h')"
    by (simp add: accumulators_def sd_def [symmetric] broadcast_structures_def
          map_structure_broadcast_copy_def same_structure_def)
  with buf show ?thesis by (simp add: nstep_write_def Let_def)
qed

text \<open>What the emitted transition holds under an agent of the first step's discounts.\<close>

lemma nstep_write_values:
  assumes "well_formed A h" and "nstep_write A h = Inr (A', h')"
  obtains t where "appended (adder_writer A') = appended (adder_writer A) @ [t]"
    and "set (keys (tr_n_step_return t)) = set (keys (discounts (hd (adder_buffer A))))"
    and "keys (tr_total_discount t) = keys (discounts (hd (adder_buffer A)))"
    and "\<And>k. k \<in> set (keys (discounts (hd (adder_buffer A)))) \<Longrightarrow>
           rounded_return h A k = Inr (leaf (tr_n_step_return t) k, leaf (tr_total_discount t) k)"
proof -
  from assms(2) obtain s0 steps nsr td ds where
    buf: "adder_buffer A = s0 # steps"
    and acc: "accumulators A s0 steps h = Inr (nsr, td, ds, h')"
    and app: "appended (adder_writer A') = appended (adder_writer A) @
       [\<lparr>tr_observations = observations s0, tr_actions = actions s0,
         tr_n_step_return = values_of h' nsr, tr_total_discount = values_of h' td,
         tr_next_observations = adder_next_observations A,
         tr_extras = (if extras s0 \<noteq> [] then Some (extras s0) else None)\<rparr>]"
    by (rule nstep_write_Inr)
  note wf = well_formedD [OF assms(1) buf]
  note v = accumulators_values [OF acc wf]
  let ?t = "\<lparr>tr_observations = observations s0, tr_actions = actions s0,
         tr_n_step_return = values_of h' nsr, tr_total_discount = values_of h' td,
         tr_next_observations = adder_next_observations A,
         tr_extras = (if extras s0 \<noteq> [] then Some (extras s0) else None)\<rparr>"
  show ?thesis
  proof (rule that [of ?t])
    show "appended (adder_writer A') = appended (adder_writer A) @ [?t]" by (rule app)
    show "set (keys (tr_n_step_return ?t)) = set (keys (discounts (hd (adder_buffer A))))"
      using v(1) by (simp add: buf keys_values_of)
    show "keys (tr_total_discount ?t) = keys (discounts (hd (adder_buffer A)))"
      using v(2) by (simp add: buf keys_values_of)
    fix k assume "k \<in> set (keys (discounts (hd (adder_buffer A))))"
    then have k: "k \<in> set (keys (discounts s0))" by (simp add: buf)
    with v(1,2) have "k \<in> set (keys nsr)" "k \<in> set (keys td)" by simp_all
    then have "leaf (values_of h' nsr) k = cells h' (leaf nsr k)"
      "leaf (values_of h' td) k = cells h' (leaf td k)"
      by (simp_all add: leaf_values_of)
    with v(4) [OF k]
    show "rounded_return h A k = Inr (leaf (tr_n_step_return ?t) k, leaf (tr_total_discount ?t) k)"
      by (simp add: rounded_return_def buf)
  qed
qed

subsection \<open>The concrete inputs\<close>






lemma float32_2g: "representable Float32 (7549747 / 4194304)"
  unfolding representable_def
  by (subst round_float_eq [where e = 0]) (simp_all add: power_int_minus round_half_even_def)








lemma example_well_formed: "well_formed example_adder example_heap"
  by (simp add: well_formed_def example_defs refs_below_def keys_def)

lemma example_same_agents: "same_agents example_adder"
  by (simp add: same_agents_def example_defs keys_def)

lemma example_float_seeds: "float_seeds example_adder example_heap"
  by (simp add: float_seeds_def float_refs_def example_defs is_float_def)

lemma example_three_steps_written:
  "\<exists>A' h'. nstep_write example_adder example_heap = Inr (A', h')"
  by (rule nstep_write_succeeds [OF example_well_formed example_same_agents example_float_seeds])

lemma example_two_steps_written:
  "\<exists>A' h'. nstep_write (example_adder\<lparr>adder_buffer := take 2 (adder_buffer example_adder)\<rparr>)
      example_heap = Inr (A', h')"
  by (rule nstep_write_succeeds)
     (simp_all add: well_formed_def same_agents_def float_seeds_def float_refs_def example_defs
        refs_below_def keys_def is_float_def)

lemma one_step_well_formed: "well_formed one_step_adder example_heap"
  by (simp add: one_step_adder_def well_formed_def example_defs refs_below_def keys_def)

lemma one_step_written:
  "\<exists>A' h'. nstep_write one_step_adder example_heap = Inr (A', h')"
  by (rule nstep_write_succeeds [OF one_step_well_formed])
     (simp_all add: one_step_adder_def same_agents_def float_seeds_def example_defs keys_def)

lemma fold_return_dtype:
  "fold_return g xs (n, t) = Inr (n', t') \<Longrightarrow> dtype n' = dtype n \<and> dtype t' = dtype t"
proof (induction xs arbitrary: n t)
  case Nil
  then show ?case by simp
next
  case (Cons x xs)
  obtain r d where x: "x = (r, d)" by fastforce
  from Cons.prems x obtain t1 n1 t2 where 1: "imul_val t g = Inr t1"
    and 2: "iadd_val n r t1 = Inr n1" and 3: "imul_val t1 d = Inr t2"
    and rest: "fold_return g xs (n1, t2) = Inr (n', t')"
    by (auto split: sum.splits)
  from 1 2 3 have "dtype t1 = dtype t" "dtype n1 = dtype n" "dtype t2 = dtype t1"
    by (auto simp: imul_val_def iadd_val_def dest: inplace_dtype)
  with Cons.IH [OF rest] show ?case by simp
qed








lemma float64_one: "representable Float64 1"
  unfolding representable_def
  by (subst round_float_eq [where e = 0]) (simp_all add: power_int_minus round_half_even_def)

lemma float64_two: "representable Float64 2"
  unfolding representable_def
  by (subst round_float_eq [where e = 1]) (simp_all add: power_int_minus round_half_even_def)

lemma float64_g: "representable Float64 (7549747 / 8388608)"
  unfolding representable_def
  by (subst round_float_eq [where e = "-1"]) (simp_all add: power_int_minus round_half_even_def)

lemma float64_2g: "representable Float64 (7549747 / 4194304)"
  unfolding representable_def
  by (subst round_float_eq [where e = 0]) (simp_all add: power_int_minus round_half_even_def)

text \<open>
  The accumulation over a first step without rewards and with a float64 discount: the
  \<open>total_discount\<close> is float64, the \<open>n_step_return\<close> grows from the float32 zero and stays
  float32.
\<close>

lemma empty_rewards_rounded_return:
  "rounded_return example_heap64 empty_rewards_adder ''a0''
     = Inr (\<lparr>dtype = Float32, item = Fin (7549747 / 4194304)\<rparr>,
            \<lparr>dtype = Float64, item = Fin (7549747 / 8388608)\<rparr>)"
proof -
  have F: "is_float Float64" by (simp add: is_float_def)
  have 1: "imul_val \<lparr>dtype = Float64, item = Fin 1\<rparr> \<lparr>dtype = Float32, item = Fin (7549747 / 8388608)\<rparr>
             = Inr \<lparr>dtype = Float64, item = Fin (7549747 / 8388608)\<rparr>"
    using float64_g float64_one
    by (intro imul_val_float [OF F]) (simp_all add: representable_def)
  have 2: "iadd_val \<lparr>dtype = Float32, item = Fin 0\<rparr> \<lparr>dtype = Float32, item = Fin 2\<rparr>
               \<lparr>dtype = Float64, item = Fin (7549747 / 8388608)\<rparr>
             = Inr \<lparr>dtype = Float32, item = Fin (7549747 / 4194304)\<rparr>"
    using float64_g float64_two float64_2g float32_2g
    by (simp add: iadd_val_def inplace_def np_add_def np_multiply_def cast_def is_float_def
          representable_def)
  have 3: "imul_val \<lparr>dtype = Float64, item = Fin (7549747 / 8388608)\<rparr> \<lparr>dtype = Float64, item = Fin 1\<rparr>
             = Inr \<lparr>dtype = Float64, item = Fin (7549747 / 8388608)\<rparr>"
    using float64_g float64_one
    by (intro imul_val_float [OF F]) (simp_all add: representable_def)
  show ?thesis
    by (simp add: rounded_return_def empty_rewards_adder_def example_heap64_def example_adder_def
          example_step_def reward_cell_def discount_cell_def leaf_def 1 2 3)
qed

lemma empty_rewards_well_formed:
  "well_formed empty_rewards_adder example_heap64 \<and> same_agents empty_rewards_adder
   \<and> float_seeds empty_rewards_adder example_heap64"
  by (simp add: empty_rewards_adder_def well_formed_def same_agents_def float_seeds_def
        float_refs_def example_heap64_def example_adder_def example_step_def refs_below_def
        keys_def is_float_def)

text \<open>
  With int32 discounts the first in-place product is refused: the float64 result of an
  int32 times a float32 does not go into the int32 array.
\<close>

lemma int_discount_raises:
  "well_formed empty_rewards_adder example_heap_int \<and> same_agents empty_rewards_adder
   \<and> nstep_write empty_rewards_adder example_heap_int = Inl UFuncTypeError"
  by (simp add: empty_rewards_adder_def well_formed_def same_agents_def example_heap_int_def
        example_adder_def example_step_def refs_below_def model_defs operator_imul_def
        inplace_def np_multiply_def is_float_def)

subsection \<open>The N-step return\<close>




subsection \<open>The one-step transition\<close>

text \<open>
  Claim C2, as the code has it. For a buffer of exactly one step with a non-empty rewards
  dictionary, the emitted transition has \<open>n_step_return\<close> equal to the rewards of the step
  and \<open>total_discount\<close> equal to the environment discounts of the step (value and dtype):
  the accumulator discount does not enter a one-step transition at all, as in the class
  docstring, where \<open>D = g\<^sup>n\<^sup>-\<^sup>1 * d\<^sub>t * \<dots>\<close> is \<open>d\<^sub>t\<close> for \<open>n = 1\<close>.
\<close>

theorem one_step_transition:
  assumes "well_formed A h" and "adder_buffer A = [s0]" and "rewards s0 \<noteq> []"
    and "nstep_write A h = Inr (A', h')"
  shows "\<exists>t. appended (adder_writer A') = appended (adder_writer A) @ [t]
           \<and> tr_n_step_return t = values_of h (rewards s0)
           \<and> tr_total_discount t = values_of h (discounts s0)"
proof -
  from assms(4) obtain s0' steps nsr td ds where
    buf: "adder_buffer A = s0' # steps"
    and acc: "accumulators A s0' steps h = Inr (nsr, td, ds, h')"
    and app: "appended (adder_writer A') = appended (adder_writer A) @
       [\<lparr>tr_observations = observations s0', tr_actions = actions s0',
         tr_n_step_return = values_of h' nsr, tr_total_discount = values_of h' td,
         tr_next_observations = adder_next_observations A,
         tr_extras = (if extras s0' \<noteq> [] then Some (extras s0') else None)\<rparr>]"
    by (rule nstep_write_Inr)
  from buf assms(2) have s0: "s0' = s0" "steps = []" by simp_all
  note wf = well_formedD [OF assms(1) buf [unfolded s0]]
  obtain td' h2 where c1: "map_structure_copy (discounts s0) h = (td', h2)" by fastforce
  obtain nsr' h3 where c2: "map_structure_copy (rewards s0) h2 = (nsr', h3)" by fastforce
  from acc [unfolded s0] assms(3) c1 c2 have eq: "nsr = nsr'" "td = td'" "h' = h3"
    by (auto simp: accumulators_def Let_def rewards_or_zeros_def broadcast_structures_def
                   map_structure_broadcast_copy_def split: if_splits)
  note p1 = map_structure_copy_props [OF c1] and p2 = map_structure_copy_props [OF c2]
  from wf(2) have old: "refs_below (next_free h) (rewards s0)" "refs_below (next_free h) (discounts s0)"
    by simp_all
  from old(2) p1 have td: "values_of h2 td' = values_of h (discounts s0)"
    by (simp only: refs_below_iff)
  have "values_of h3 td' = values_of h2 td'"
  proof (rule values_of_cong)
    fix a assume "a \<in> snd ` set td'"
    with p1 have "a < next_free h2" by blast
    with p2 show "cells h3 a = cells h2 a" by blast
  qed
  with td have 1: "values_of h3 td' = values_of h (discounts s0)" by simp
  from old(1) p1 have "\<forall>a\<in>snd ` set (rewards s0). a < next_free h2"
    by (auto simp: refs_below_iff)
  with p2 have "values_of h3 nsr' = values_of h2 (rewards s0)" by blast
  also have "\<dots> = values_of h (rewards s0)"
  proof (rule values_of_cong)
    fix a assume "a \<in> snd ` set (rewards s0)"
    with old(1) have "a < next_free h" by (auto simp: refs_below_iff)
    with p1 show "cells h2 a = cells h a" by blast
  qed
  finally have 2: "values_of h3 nsr' = values_of h (rewards s0)" .
  from app 1 2 eq s0 show ?thesis by simp
qed

theorem one_step_transition_witness:
  "well_formed one_step_adder example_heap
   \<and> adder_buffer one_step_adder = [example_step 1 4 5]
   \<and> rewards (example_step 1 4 5) \<noteq> []
   \<and> (\<exists>A' h' t. nstep_write one_step_adder example_heap = Inr (A', h')
         \<and> appended (adder_writer A') = [t]
         \<and> tr_n_step_return t = [(''a0'', \<lparr>dtype = Float32, item = Fin 1\<rparr>)]
         \<and> tr_total_discount t = [(''a0'', \<lparr>dtype = Float32, item = Fin 1\<rparr>)])"
proof -
  obtain A' h' where w: "nstep_write one_step_adder example_heap = Inr (A', h')"
    using one_step_written by blast
  have b: "adder_buffer one_step_adder = [example_step 1 4 5]"
    and r: "rewards (example_step 1 4 5) \<noteq> []"
    by (simp_all add: one_step_adder_def example_step_def)
  from one_step_transition [OF one_step_well_formed b r w] obtain t where
    t: "appended (adder_writer A') = [t]"
    and "tr_n_step_return t = values_of example_heap (rewards (example_step 1 4 5))"
    and "tr_total_discount t = values_of example_heap (discounts (example_step 1 4 5))"
    by (auto simp: one_step_adder_def example_adder_def)
  then have "tr_n_step_return t = [(''a0'', \<lparr>dtype = Float32, item = Fin 1\<rparr>)]"
    and "tr_total_discount t = [(''a0'', \<lparr>dtype = Float32, item = Fin 1\<rparr>)]"
    by (simp_all add: values_of_def example_heap_def example_step_def)
  with w t b r one_step_well_formed show ?thesis by blast
qed

text \<open>
  The claim as stated fails: with the environment discount 1 and the accumulator discount
  0.9 the \<open>total_discount\<close> of the one-step transition is 1, not 0.9.
\<close>

theorem one_step_total_discount_counterexample:
  "\<not> (\<forall>A' h' t. nstep_write one_step_adder example_heap = Inr (A', h')
          \<longrightarrow> appended (adder_writer A') = [t]
          \<longrightarrow> (\<forall>(k, v)\<in>set (tr_total_discount t).
                 item v = item (cells example_heap (adder_discount one_step_adder))))"
proof
  assume a: "\<forall>A' h' t. nstep_write one_step_adder example_heap = Inr (A', h')
          \<longrightarrow> appended (adder_writer A') = [t]
          \<longrightarrow> (\<forall>(k, v)\<in>set (tr_total_discount t).
                 item v = item (cells example_heap (adder_discount one_step_adder)))"
  have "\<exists>A' h' t. nstep_write one_step_adder example_heap = Inr (A', h')
     \<and> appended (adder_writer A') = [t]
     \<and> tr_total_discount t = [(''a0'', \<lparr>dtype = Float32, item = Fin 1\<rparr>)]"
    by (simp add: one_step_adder_def model_defs example_defs)
  then obtain A' h' t where "nstep_write one_step_adder example_heap = Inr (A', h')"
    "appended (adder_writer A') = [t]"
    "tr_total_discount t = [(''a0'', \<lparr>dtype = Float32, item = Fin 1\<rparr>)]" by blast
  with a have "Fin 1 = item (cells example_heap (adder_discount one_step_adder))"
    by fastforce
  then show False by (simp add: one_step_adder_def example_defs)
qed


subsection \<open>The fields of the emitted transition\<close>

text \<open>
  Claim C6. Every transition that \<^verbatim>\<open>_write\<close> emits takes its observations, its actions and
  its extras from the first step of the buffer, whatever the later steps carry, and its
  next observations are the adder's pending arrival observations. (Empty extras of the
  first step are carried as the 5-tuple without extras.)
\<close>

theorem write_takes_first_step:
  assumes "nstep_write A h = Inr (A', h')"
  shows "\<exists>t. appended (adder_writer A') = appended (adder_writer A) @ [t]
           \<and> tr_observations t = observations (hd (adder_buffer A))
           \<and> tr_actions t = actions (hd (adder_buffer A))
           \<and> extras_carried t = extras (hd (adder_buffer A))
           \<and> tr_next_observations t = adder_next_observations A"
  using assms by (elim nstep_write_Inr) (auto simp: extras_carried_def)

text \<open>
  The example of the claim: step 0 carries the extras \<open>h = 5\<close>, step 1 carries \<open>h = 9\<close>,
  and the 2-step transition carries \<open>h = 5\<close>.
\<close>

theorem write_takes_first_step_witness:
  "\<exists>A' h' t. nstep_write (example_adder\<lparr>adder_buffer := take 2 (adder_buffer example_adder)\<rparr>)
        example_heap = Inr (A', h')
     \<and> appended (adder_writer A') = [t]
     \<and> extras (adder_buffer example_adder ! 0) = [(''h'', 5)]
     \<and> extras (adder_buffer example_adder ! 1) = [(''h'', 9)]
     \<and> tr_observations t = [(''a0'', 1)]
     \<and> tr_actions t = [(''a0'', 0)]
     \<and> extras_carried t = [(''h'', 5)]
     \<and> tr_next_observations t = [(''a0'', 42)]"
proof -
  let ?A = "example_adder\<lparr>adder_buffer := take 2 (adder_buffer example_adder)\<rparr>"
  obtain A' h' where w: "nstep_write ?A example_heap = Inr (A', h')"
    using example_two_steps_written by blast
  from write_takes_first_step [OF w] obtain t where
    "appended (adder_writer A') = appended (adder_writer ?A) @ [t]"
    "tr_observations t = observations (hd (adder_buffer ?A))"
    "tr_actions t = actions (hd (adder_buffer ?A))"
    "extras_carried t = extras (hd (adder_buffer ?A))"
    "tr_next_observations t = adder_next_observations ?A"
    by blast
  with w show ?thesis
    by (simp add: example_adder_def example_step_def)
qed


subsection \<open>The buffered steps after a write\<close>

text \<open>
  Claim C10. A write never mutates the buffered steps: the accumulators are copies, so the
  in-place folds change only cells that the write call allocated itself. After
  \<^verbatim>\<open>_write\<close> the buffer holds the same steps, and every numpy object that existed before
  the call (in particular the rewards and discounts of the buffered steps) has the value
  and the dtype it had before.
\<close>

theorem write_keeps_buffered_steps:
  assumes "nstep_write A h = Inr (A', h')"
  shows "adder_buffer A' = adder_buffer A \<and> (\<forall>a<next_free h. cells h' a = cells h a)"
  using assms by (elim nstep_write_Inr) (auto dest: accumulators_frame)

theorem write_keeps_buffered_steps_witness:
  "\<exists>A' h'. nstep_write example_adder example_heap = Inr (A', h')
     \<and> adder_buffer A' = adder_buffer example_adder
     \<and> map (step_values h') (adder_buffer A') = map (step_values example_heap) (adder_buffer example_adder)
     \<and> map (cells h') [0..<7] = map (cells example_heap) [0..<7]"
proof -
  obtain A' h' where w: "nstep_write example_adder example_heap = Inr (A', h')"
    using example_three_steps_written by blast
  from write_keeps_buffered_steps [OF w]
  have b: "adder_buffer A' = adder_buffer example_adder"
    and c: "\<forall>a<7. cells h' a = cells example_heap a"
    by (simp_all add: example_heap_def)
  from c have "map (cells h') [0..<7] = map (cells example_heap) [0..<7]"
    by simp
  moreover from b c
  have "map (step_values h') (adder_buffer A')
          = map (step_values example_heap) (adder_buffer example_adder)"
    by (simp add: example_adder_def example_step_def step_values_def values_of_def)
  ultimately show ?thesis using w b by blast
qed

subsection \<open>Empty rewards\<close>

text \<open>
  Claim C5, as the code has it. When the references of the buffer are to existing objects,
  the steps agree on the agents (the discounts of every step are keyed by the agents of the
  first step's observations, the rewards too unless they are empty) and, if the window has
  more than one step, the rewards and discounts of the first step are floating point arrays,
  \<^verbatim>\<open>_write\<close> does not raise. For a step with an empty rewards dictionary it makes one
  zero-valued float32 scalar per agent of the step's discounts, whatever the dtype of the
  discounts, and the accumulation goes on with these zeros: the emitted values are the
  rounds of the loop with the float32 zero as the reward of that step, and when the first
  step is the one without rewards the \<open>n_step_return\<close> is float32.
\<close>

theorem empty_rewards_zero_fill:
  assumes "well_formed A h" and "same_agents A" and "float_seeds A h"
  shows "\<exists>A' h' t. nstep_write A h = Inr (A', h')
           \<and> appended (adder_writer A') = appended (adder_writer A) @ [t]
           \<and> (\<forall>k\<in>set (keys (discounts (hd (adder_buffer A)))).
                 rounded_return h A k
                   = Inr (leaf (tr_n_step_return t) k, leaf (tr_total_discount t) k)
                 \<and> (rewards (hd (adder_buffer A)) = []
                      \<longrightarrow> dtype (leaf (tr_n_step_return t) k) = Float32))
           \<and> (\<forall>s\<in>set (adder_buffer A). rewards s = [] \<longrightarrow>
                 (\<forall>k. reward_cell h s k = \<lparr>dtype = Float32, item = Fin 0\<rparr>)
                 \<and> (\<forall>h0. case rewards_or_zeros s h0 of
                            (d, h1) \<Rightarrow> keys d = keys (discounts s)
                              \<and> list_all (\<lambda>(k, a). cells h1 a = \<lparr>dtype = Float32, item = Fin 0\<rparr>) d))"
proof -
  from nstep_write_succeeds [OF assms] obtain A' h' where
    w: "nstep_write A h = Inr (A', h')" by blast
  from assms(1) w obtain t where
    t: "appended (adder_writer A') = appended (adder_writer A) @ [t]"
    and v: "\<And>k. k \<in> set (keys (discounts (hd (adder_buffer A)))) \<Longrightarrow>
           rounded_return h A k = Inr (leaf (tr_n_step_return t) k, leaf (tr_total_discount t) k)"
    by (rule nstep_write_values) blast
  have zeros: "(\<forall>k. reward_cell h s k = \<lparr>dtype = Float32, item = Fin 0\<rparr>)
       \<and> (\<forall>h0. case rewards_or_zeros s h0 of
                  (d, h1) \<Rightarrow> keys d = keys (discounts s)
                    \<and> list_all (\<lambda>(k, a). cells h1 a = \<lparr>dtype = Float32, item = Fin 0\<rparr>) d)"
    if e: "rewards s = []" for s :: "('a, addr) Step"
  proof -
    have "keys d = keys (discounts s)
           \<and> list_all (\<lambda>(k, a). cells h1 a = \<lparr>dtype = Float32, item = Fin 0\<rparr>) d"
      if "rewards_or_zeros s h0 = (d, h1)" for h0 d h1
      using that e rewards_or_zeros_keys [OF that] zero_rewards_list_all [of "keys (discounts s)" h0 d h1]
      by (simp add: rewards_or_zeros_def)
    with e show ?thesis by (auto simp: reward_cell_def)
  qed
  have vals: "rounded_return h A k = Inr (leaf (tr_n_step_return t) k, leaf (tr_total_discount t) k)
        \<and> (rewards (hd (adder_buffer A)) = [] \<longrightarrow> dtype (leaf (tr_n_step_return t) k) = Float32)"
    if k: "k \<in> set (keys (discounts (hd (adder_buffer A))))" for k
  proof -
    note r = v [OF k]
    from r [unfolded rounded_return_def]
    have "dtype (leaf (tr_n_step_return t) k) = dtype (reward_cell h (hd (adder_buffer A)) k)"
      by (auto dest: fold_return_dtype)
    with r show ?thesis by (simp add: reward_cell_def)
  qed
  from vals have A: "\<forall>k\<in>set (keys (discounts (hd (adder_buffer A)))).
                 rounded_return h A k
                   = Inr (leaf (tr_n_step_return t) k, leaf (tr_total_discount t) k)
                 \<and> (rewards (hd (adder_buffer A)) = []
                      \<longrightarrow> dtype (leaf (tr_n_step_return t) k) = Float32)"
    by (intro ballI)
  have B: "\<forall>s\<in>set (adder_buffer A). rewards s = [] \<longrightarrow>
                 (\<forall>k. reward_cell h s k = \<lparr>dtype = Float32, item = Fin 0\<rparr>)
                 \<and> (\<forall>h0. case rewards_or_zeros s h0 of
                            (d, h1) \<Rightarrow> keys d = keys (discounts s)
                              \<and> list_all (\<lambda>(k, a). cells h1 a = \<lparr>dtype = Float32, item = Fin 0\<rparr>) d)"
    using zeros by (intro ballI impI)
  show ?thesis
    by (intro exI [of _ A'] exI [of _ h'] exI [of _ t] conjI w t A B)
qed

theorem empty_rewards_zero_fill_witness:
  "well_formed empty_rewards_adder example_heap64 \<and> same_agents empty_rewards_adder
   \<and> float_seeds empty_rewards_adder example_heap64
   \<and> rewards (hd (adder_buffer empty_rewards_adder)) = []
   \<and> discounts (hd (adder_buffer empty_rewards_adder)) = [(''a0'', 4)]
   \<and> dtype (cells example_heap64 4) = Float64
   \<and> (\<exists>A' h' t. nstep_write empty_rewards_adder example_heap64 = Inr (A', h')
         \<and> appended (adder_writer A') = [t]
         \<and> leaf (tr_n_step_return t) ''a0'' = \<lparr>dtype = Float32, item = Fin (7549747 / 4194304)\<rparr>
         \<and> leaf (tr_total_discount t) ''a0'' = \<lparr>dtype = Float64, item = Fin (7549747 / 8388608)\<rparr>)"
proof -
  note wf = empty_rewards_well_formed
  have b: "rewards (hd (adder_buffer empty_rewards_adder)) = []"
    "discounts (hd (adder_buffer empty_rewards_adder)) = [(''a0'', 4)]"
    "dtype (cells example_heap64 4) = Float64"
    by (simp_all add: empty_rewards_adder_def example_step_def example_heap64_def)
  from empty_rewards_zero_fill [OF wf [THEN conjunct1] wf [THEN conjunct2, THEN conjunct1]
         wf [THEN conjunct2, THEN conjunct2]]
  obtain A' h' t where w: "nstep_write empty_rewards_adder example_heap64 = Inr (A', h')"
    and t: "appended (adder_writer A') = appended (adder_writer empty_rewards_adder) @ [t]"
    and n: "\<forall>k\<in>set (keys (discounts (hd (adder_buffer empty_rewards_adder)))).
                 rounded_return example_heap64 empty_rewards_adder k
                   = Inr (leaf (tr_n_step_return t) k, leaf (tr_total_discount t) k)
                 \<and> (rewards (hd (adder_buffer empty_rewards_adder)) = []
                      \<longrightarrow> dtype (leaf (tr_n_step_return t) k) = Float32)"
    by blast
  from b(2) have "''a0'' \<in> set (keys (discounts (hd (adder_buffer empty_rewards_adder))))"
    by (simp add: keys_def)
  with n have "rounded_return example_heap64 empty_rewards_adder ''a0''
                   = Inr (leaf (tr_n_step_return t) ''a0'', leaf (tr_total_discount t) ''a0'')"
    by blast
  with empty_rewards_rounded_return
  have "leaf (tr_n_step_return t) ''a0'' = \<lparr>dtype = Float32, item = Fin (7549747 / 4194304)\<rparr>"
    "leaf (tr_total_discount t) ''a0'' = \<lparr>dtype = Float64, item = Fin (7549747 / 8388608)\<rparr>"
    by simp_all
  moreover from t have "appended (adder_writer A') = [t]"
    by (simp add: empty_rewards_adder_def example_adder_def)
  ultimately show ?thesis using w b wf by blast
qed

text \<open>
  The claim as stated fails on the dtype: for a float64 discount the zero made for the agent
  is float32.
\<close>

theorem zero_fill_dtype_counterexample:
  "\<not> (\<forall>d h1. rewards_or_zeros (hd (adder_buffer empty_rewards_adder)) example_heap64 = (d, h1)
         \<longrightarrow> (\<forall>(k, a)\<in>set d.
                dtype (cells h1 a)
                  = dtype (cells h1 (leaf (discounts (hd (adder_buffer empty_rewards_adder))) k))))"
  by (simp add: empty_rewards_adder_def example_heap64_def example_step_def rewards_or_zeros_def
        float32_zero_def alloc_def keys_def leaf_def)

end
